theory Spec2Isabelle
  imports Main "HOL-Library.Char_ord"
begin

section \<open>Bytes and control characters\<close>

text \<open>
  A Go \<open>string\<close> is a sequence of bytes; it is modelled as a \<open>string\<close> (a list of
  8-bit \<open>char\<close>s). Offsets and lengths are byte offsets, as Go's \<open>len\<close> and indexing are.
\<close>

definition ESC :: char where
  "ESC = CHR 0x1B"

definition BEL :: char where
  "BEL = CHR 0x07"

definition BSL :: char where
  "BSL = CHR 0x5C"

definition isParamByte :: "char \<Rightarrow> bool" where
  "isParamByte c \<longleftrightarrow> (CHR ''0'' \<le> c \<and> c \<le> CHR ''9'') \<or> c = CHR '';''"

definition isLetter :: "char \<Rightarrow> bool" where
  "isLetter c \<longleftrightarrow> (CHR ''A'' \<le> c \<and> c \<le> CHR ''Z'') \<or> (CHR ''a'' \<le> c \<and> c \<le> CHR ''z'')"

section \<open>stripANSIWithMapping (search.go)\<close>

text \<open>
  The inner loop of the CSI branch:
  \<^verbatim>\<open>for j < len(s) && ((s[j] >= '0' && s[j] <= '9') || s[j] == ';') { j++ }\<close>
\<close>

function skipParams :: "string \<Rightarrow> nat \<Rightarrow> nat" where
  "skipParams s j = (if j < length s \<and> isParamByte (s ! j) then skipParams s (j + 1) else j)"
  by pat_completeness auto
termination
  by (relation "measure (\<lambda>(s, j). length s - j)") auto

declare skipParams.simps [simp del]

text \<open>
  The CSI branch as a whole, from the escape byte at \<open>i\<close>: \<open>j := i + 2\<close>, the loop above,
  then \<^verbatim>\<open>if j < len(s) { j++ }\<close>; the result is the new value of \<open>i\<close>.
\<close>

definition csiEnd :: "string \<Rightarrow> nat \<Rightarrow> nat" where
  "csiEnd s i = (let j = skipParams s (i + 2) in if j < length s then j + 1 else j)"

text \<open>
  The inner loop of the OSC branch, which leaves at the terminator \<open>ESC \\<close> (two bytes),
  at a \<open>BEL\<close> byte, or at the end of the string.
\<close>

function oscScan :: "string \<Rightarrow> nat \<Rightarrow> nat" where
  "oscScan s j =
     (if j < length s then
        (if j + 1 < length s \<and> s ! j = ESC \<and> s ! (j + 1) = BSL then j + 2
         else if s ! j = BEL then j + 1
         else oscScan s (j + 1))
      else j)"
  by pat_completeness auto
termination
  by (relation "measure (\<lambda>(s, j). length s - j)") auto

declare oscScan.simps [simp del]

lemma skipParams_step:
  "j < length s \<Longrightarrow> isParamByte (s ! j) \<Longrightarrow> skipParams s j = skipParams s (j + 1)"
  by (subst skipParams.simps) simp

lemma skipParams_stop:
  "\<not> (j < length s \<and> isParamByte (s ! j)) \<Longrightarrow> skipParams s j = j"
  by (subst skipParams.simps) auto

lemma skipParams_ge: "j \<le> skipParams s j"
proof (induction s j rule: skipParams.induct)
  case (1 s j)
  show ?case
  proof (cases "j < length s \<and> isParamByte (s ! j)")
    case True
    with "1" have "j + 1 \<le> skipParams s (j + 1)" by simp
    with True show ?thesis by (simp add: skipParams_step)
  next
    case False
    then have "skipParams s j = j" by (rule skipParams_stop)
    then show ?thesis by simp
  qed
qed

lemma skipParams_le: "j \<le> length s \<Longrightarrow> skipParams s j \<le> length s"
proof (induction s j rule: skipParams.induct)
  case (1 s j)
  show ?case
  proof (cases "j < length s \<and> isParamByte (s ! j)")
    case True
    with "1" have "skipParams s (j + 1) \<le> length s" by simp
    with True show ?thesis by (simp add: skipParams_step)
  next
    case False
    then have "skipParams s j = j" by (rule skipParams_stop)
    with "1.prems" show ?thesis by simp
  qed
qed

lemma csiEnd_gt: "i < csiEnd s i"
proof -
  have "i + 2 \<le> skipParams s (i + 2)" by (rule skipParams_ge)
  then show ?thesis by (simp add: csiEnd_def Let_def)
qed

lemma oscScan_end: "\<not> j < length s \<Longrightarrow> oscScan s j = j"
  by (subst oscScan.simps) simp

lemma oscScan_ST:
  "j + 1 < length s \<Longrightarrow> s ! j = ESC \<Longrightarrow> s ! (j + 1) = BSL \<Longrightarrow> oscScan s j = j + 2"
  by (subst oscScan.simps) simp

lemma oscScan_BEL:
  "j < length s \<Longrightarrow> \<not> (j + 1 < length s \<and> s ! j = ESC \<and> s ! (j + 1) = BSL) \<Longrightarrow> s ! j = BEL
     \<Longrightarrow> oscScan s j = j + 1"
  by (subst oscScan.simps) auto

lemma oscScan_step:
  "j < length s \<Longrightarrow> \<not> (j + 1 < length s \<and> s ! j = ESC \<and> s ! (j + 1) = BSL) \<Longrightarrow> s ! j \<noteq> BEL
     \<Longrightarrow> oscScan s j = oscScan s (j + 1)"
  by (subst oscScan.simps) auto

lemma oscScan_ge: "j \<le> oscScan s j"
proof (induction s j rule: oscScan.induct)
  case (1 s j)
  show ?case
  proof (cases "j < length s")
    case False
    then show ?thesis by (simp add: oscScan_end)
  next
    case inr: True
    show ?thesis
    proof (cases "j + 1 < length s \<and> s ! j = ESC \<and> s ! (j + 1) = BSL")
      case True
      then show ?thesis by (simp add: oscScan_ST)
    next
      case noST: False
      show ?thesis
      proof (cases "s ! j = BEL")
        case True
        with inr noST show ?thesis by (simp add: oscScan_BEL)
      next
        case False
        with inr noST "1" have "j + 1 \<le> oscScan s (j + 1)" by blast
        with inr noST False show ?thesis by (simp add: oscScan_step)
      qed
    qed
  qed
qed

lemma csiEnd_measure: "i < length s \<Longrightarrow> length s - csiEnd s i < length s - i"
  using csiEnd_gt [of i s] by simp

lemma oscScan_measure: "i < length s \<Longrightarrow> length s - oscScan s (Suc (Suc i)) < length s - i"
  using oscScan_ge [of "Suc (Suc i)" s] by simp

text \<open>
  The outer loop. The state of the Go loop is the index \<open>i\<close> and the two slices that are
  appended to; \<^verbatim>\<open>i < len(s)-1\<close> is \<open>i + 1 < length s\<close> (the outer guard has already
  given \<open>i < length s\<close>, so \<open>len(s) - 1\<close> is not negative).
\<close>

function stripLoop :: "string \<Rightarrow> nat \<Rightarrow> string \<Rightarrow> nat list \<Rightarrow> string \<times> nat list" where
  "stripLoop s i plainBytes posMap =
     (if i < length s then
        (if i + 1 < length s \<and> s ! i = ESC then
           (if s ! (i + 1) = CHR ''['' then stripLoop s (csiEnd s i) plainBytes posMap
            else if s ! (i + 1) = CHR '']'' then stripLoop s (oscScan s (i + 2)) plainBytes posMap
            else stripLoop s (i + 1) (plainBytes @ [s ! i]) (posMap @ [i]))
         else stripLoop s (i + 1) (plainBytes @ [s ! i]) (posMap @ [i]))
      else (plainBytes, posMap))"
  by pat_completeness auto
termination
  by (relation "measure (\<lambda>(s, i, p, m). length s - i)")
     (auto simp: csiEnd_measure oscScan_measure)

declare stripLoop.simps [simp del]

definition stripANSIWithMapping :: "string \<Rightarrow> string \<times> nat list" where
  "stripANSIWithMapping s = stripLoop s 0 [] []"

definition stripANSI :: "string \<Rightarrow> string" where
  "stripANSI s = fst (stripANSIWithMapping s)"

subsection \<open>The loop, case by case\<close>







section \<open>UTF-8 as the Go runtime reads it\<close>

text \<open>
  Go counts the codepoints of a string by decoding UTF-8 (\<open>utf8.RuneCountInString\<close>,
  \<open>[]rune(s)\<close>, \<open>range\<close>): a well-formed encoding of 1 to 4 bytes is one codepoint; any
  other byte is one codepoint (U+FFFD) of width 1. \<open>DecodeRune\<close> follows
  \<open>utf8.DecodeRuneInString\<close>: the result is the codepoint and the number of bytes read.
\<close>

definition RuneError :: nat where
  "RuneError = 0xFFFD"

definition isContByte :: "char \<Rightarrow> bool" where
  "isContByte c \<longleftrightarrow> 0x80 \<le> (of_char c :: nat) \<and> (of_char c :: nat) \<le> 0xBF"

definition acceptLo :: "nat \<Rightarrow> nat" where
  "acceptLo p0 = (if p0 = 0xE0 then 0xA0 else if p0 = 0xF0 then 0x90 else 0x80)"

definition acceptHi :: "nat \<Rightarrow> nat" where
  "acceptHi p0 = (if p0 = 0xED then 0x9F else if p0 = 0xF4 then 0x8F else 0xBF)"

definition secondOK :: "nat \<Rightarrow> char \<Rightarrow> bool" where
  "secondOK p0 c1 \<longleftrightarrow> acceptLo p0 \<le> (of_char c1 :: nat) \<and> (of_char c1 :: nat) \<le> acceptHi p0"

fun DecodeRune :: "string \<Rightarrow> nat \<times> nat" where
  "DecodeRune [] = (RuneError, 0)"
| "DecodeRune (c0 # cs) =
     (let p0 = (of_char c0 :: nat) in
      if p0 < 0x80 then (p0, 1)
      else if 0xC2 \<le> p0 \<and> p0 \<le> 0xDF then
        (case cs of
           c1 # _ \<Rightarrow>
             if secondOK p0 c1 then ((p0 mod 32) * 64 + of_char c1 mod 64, 2)
             else (RuneError, 1)
         | _ \<Rightarrow> (RuneError, 1))
      else if 0xE0 \<le> p0 \<and> p0 \<le> 0xEF then
        (case cs of
           c1 # c2 # _ \<Rightarrow>
             if secondOK p0 c1 \<and> isContByte c2
             then ((p0 mod 16) * 4096 + (of_char c1 mod 64) * 64 + of_char c2 mod 64, 3)
             else (RuneError, 1)
         | _ \<Rightarrow> (RuneError, 1))
      else if 0xF0 \<le> p0 \<and> p0 \<le> 0xF4 then
        (case cs of
           c1 # c2 # c3 # _ \<Rightarrow>
             if secondOK p0 c1 \<and> isContByte c2 \<and> isContByte c3
             then ((p0 mod 8) * 262144 + (of_char c1 mod 64) * 4096
                     + (of_char c2 mod 64) * 64 + of_char c3 mod 64, 4)
             else (RuneError, 1)
         | _ \<Rightarrow> (RuneError, 1))
      else (RuneError, 1))"

lemma DecodeRune_size_pos: "s \<noteq> [] \<Longrightarrow> 0 < snd (DecodeRune s)"
  by (cases s) (auto simp: Let_def split: list.splits)

function RuneCountInString :: "string \<Rightarrow> nat" where
  "RuneCountInString s =
     (if s = [] then 0 else 1 + RuneCountInString (drop (snd (DecodeRune s)) s))"
  by pat_completeness auto
termination
  by (relation "measure length") (auto simp: DecodeRune_size_pos simp del: DecodeRune.simps)

declare RuneCountInString.simps [simp del]

section \<open>The length of the position map\<close>



section \<open>A style-change sequence is consumed whole\<close>

text \<open>Go's \<open>s[a:b]\<close>, for \<open>a \<le> b \<le> len(s)\<close>.\<close>

definition slice :: "'a list \<Rightarrow> nat \<Rightarrow> nat \<Rightarrow> 'a list" where
  "slice s a b = take (b - a) (drop a s)"


lemma take_slice: "i \<le> e \<Longrightarrow> take i s @ slice s i e = take e s"
proof -
  assume "i \<le> e"
  then have "e = i + (e - i)" by simp
  then have "take e s = take i s @ take (e - i) (drop i s)" by (metis take_add)
  then show ?thesis by (simp add: slice_def)
qed








section \<open>The search state (search.go)\<close>

text \<open>
  \<open>SearchMatch\<close> and \<open>SearchState\<close>. The fields \<open>text\<close> and \<open>term\<close> carry a prime here
  (both words are reserved in Isabelle). Line numbers and columns are indices and byte
  offsets, never negative; \<open>currentIndex\<close> is an \<open>int\<close>, with \<open>-1\<close> for "none". The
  \<open>config\<close> pointer is used by the highlighter only and is left out.
\<close>

record SearchMatch =
  lineNumber :: nat
  column :: nat
  originalColumn :: nat
  text' :: string

record SearchState =
  active :: bool
  term' :: string
  matches :: "SearchMatch list"
  currentIndex :: int
  caseSensitive :: bool

text \<open>The zero value \<open>SearchMatch{}\<close>.\<close>

definition zeroMatch :: SearchMatch where
  "zeroMatch = \<lparr>lineNumber = 0, column = 0, originalColumn = 0, text' = []\<rparr>"

definition NewSearchState :: SearchState where
  "NewSearchState =
     \<lparr>active = False, term' = [], matches = [], currentIndex = -1, caseSensitive = False\<rparr>"

definition Clear :: "SearchState \<Rightarrow> SearchState" where
  "Clear s = s\<lparr>active := False, term' := [], matches := [], currentIndex := -1\<rparr>"

definition ToggleCaseSensitive :: "SearchState \<Rightarrow> SearchState" where
  "ToggleCaseSensitive s = s\<lparr>caseSensitive := \<not> caseSensitive s\<rparr>"

subsection \<open>Library functions of Go's \<open>strings\<close> package\<close>

text \<open>
  \<open>strings.Index(h, sub)\<close>: the offset of the first occurrence of \<open>sub\<close> in \<open>h\<close>, or
  \<open>-1\<close> (here \<open>None\<close>).
\<close>

fun Index :: "string \<Rightarrow> string \<Rightarrow> nat option" where
  "Index [] sub = (if sub = [] then Some 0 else None)"
| "Index (c # cs) sub =
     (if take (length sub) (c # cs) = sub then Some 0 else map_option Suc (Index cs sub))"

text \<open>\<open>strings.Split(content, "\n")\<close>: the lines, one more than there are newlines.\<close>

fun SplitLines :: "string \<Rightarrow> string list" where
  "SplitLines [] = [[]]"
| "SplitLines (c # cs) =
     (if c = CHR 0x0A then [] # SplitLines cs
      else (case SplitLines cs of l # ls \<Rightarrow> (c # l) # ls | [] \<Rightarrow> [[c]]))"

text \<open>
  \<open>strings.ToLower\<close>: a string of ASCII bytes only is lower-cased byte by byte; any
  other string goes through \<open>strings.Map(unicode.ToLower, s)\<close>, which is the parameter
  \<open>U\<close> here (the Unicode case tables are not modelled).
\<close>

definition lowerASCII :: "char \<Rightarrow> char" where
  "lowerASCII c = (if CHR ''A'' \<le> c \<and> c \<le> CHR ''Z'' then char_of (of_char c + (32::nat)) else c)"

definition ToLower :: "(string \<Rightarrow> string) \<Rightarrow> string \<Rightarrow> string" where
  "ToLower U s = (if list_all (\<lambda>c. (of_char c :: nat) < 0x80) s then map lowerASCII s else U s)"

subsection \<open>findAllMatches\<close>

text \<open>
  The inner \<^verbatim>\<open>for { ... }\<close> of \<open>findAllMatches\<close>, for one line: \<open>index\<close> and the match list
  are the loop state. The loop has no bound of its own: with an empty \<open>searchTerm\<close> it
  would find a match at \<open>index\<close> forever, so it is a partial function, and \<open>None\<close> is
  "does not return".
\<close>

partial_function (option) findInLine ::
  "nat \<Rightarrow> string \<Rightarrow> nat list \<Rightarrow> string \<Rightarrow> string \<Rightarrow> nat \<Rightarrow> SearchMatch list
     \<Rightarrow> SearchMatch list option" where
  "findInLine lineNum plainLine posMap searchLine searchTerm index ms =
     (case Index (drop index searchLine) searchTerm of
        None \<Rightarrow> Some ms
      | Some pos \<Rightarrow>
          (let actualPos = index + pos;
               originalPos = (if actualPos < length posMap then posMap ! actualPos else 0);
               matchText =
                 (if actualPos + length searchTerm \<le> length plainLine
                  then slice plainLine actualPos (actualPos + length searchTerm) else [])
           in findInLine lineNum plainLine posMap searchLine searchTerm
                (actualPos + length searchTerm)
                (ms @ [\<lparr>lineNumber = lineNum, column = actualPos,
                         originalColumn = originalPos, text' = matchText\<rparr>])))"

declare findInLine.simps [code]

text \<open>The outer \<^verbatim>\<open>for lineNum, line := range lines\<close>.\<close>

fun findInLines ::
  "(string \<Rightarrow> string) \<Rightarrow> bool \<Rightarrow> string \<Rightarrow> nat \<Rightarrow> string list \<Rightarrow> SearchMatch list
     \<Rightarrow> SearchMatch list option" where
  "findInLines U cs searchTerm lineNum [] ms = Some ms"
| "findInLines U cs searchTerm lineNum (line # rest) ms =
     (let (plainLine, posMap) = stripANSIWithMapping line;
          searchLine = (if \<not> cs then ToLower U plainLine else plainLine)
      in case findInLine lineNum plainLine posMap searchLine searchTerm 0 ms of
           None \<Rightarrow> None
         | Some ms' \<Rightarrow> findInLines U cs searchTerm (lineNum + 1) rest ms')"

text \<open>
  The local \<open>searchTerm\<close>: \<^verbatim>\<open>searchTerm := s.term\<close>, lower-cased unless the search is
  case sensitive.
\<close>

definition searchTermOf :: "(string \<Rightarrow> string) \<Rightarrow> SearchState \<Rightarrow> string" where
  "searchTermOf U s = (if \<not> caseSensitive s then ToLower U (term' s) else term' s)"

definition findAllMatches ::
  "(string \<Rightarrow> string) \<Rightarrow> string \<Rightarrow> SearchState \<Rightarrow> SearchState option" where
  "findAllMatches U content s =
     (let s1 = s\<lparr>matches := []\<rparr> in
      if term' s1 = [] then Some s1
      else
        (let lines = SplitLines content;
             searchTerm = searchTermOf U s1
         in map_option (\<lambda>ms. s1\<lparr>matches := ms\<rparr>)
              (findInLines U (caseSensitive s1) searchTerm 0 lines [])))"

definition SetTerm ::
  "(string \<Rightarrow> string) \<Rightarrow> string \<Rightarrow> string \<Rightarrow> SearchState \<Rightarrow> SearchState option" where
  "SetTerm U t content s =
     (case findAllMatches U content (s\<lparr>term' := t\<rparr>) of
        None \<Rightarrow> None
      | Some s1 \<Rightarrow> Some (if length (matches s1) > 0 then s1\<lparr>currentIndex := 0\<rparr> else s1))"

subsection \<open>The match cursor\<close>

text \<open>
  Go's \<open>%\<close> on \<open>int\<close> truncates towards zero: the result has the sign of the dividend.
  An index outside the slice is a run-time panic, and so is a slice expression
  \<open>s[a:b]\<close> without \<open>a \<le> b \<le> len(s)\<close>.
\<close>

definition goRem :: "int \<Rightarrow> int \<Rightarrow> int" where
  "goRem a b = sgn a * (\<bar>a\<bar> mod \<bar>b\<bar>)"

datatype panic = IndexOutOfRange | SliceBoundsOutOfRange

definition matchAt :: "SearchState \<Rightarrow> panic + (SearchState \<times> SearchMatch \<times> bool)" where
  "matchAt s =
     (if 0 \<le> currentIndex s \<and> currentIndex s < int (length (matches s))
      then Inr (s, matches s ! nat (currentIndex s), True)
      else Inl IndexOutOfRange)"

definition NextMatch :: "SearchState \<Rightarrow> panic + (SearchState \<times> SearchMatch \<times> bool)" where
  "NextMatch s =
     (if length (matches s) = 0 then Inr (s, zeroMatch, False)
      else matchAt (s\<lparr>currentIndex := goRem (currentIndex s + 1) (int (length (matches s)))\<rparr>))"

definition PrevMatch :: "SearchState \<Rightarrow> panic + (SearchState \<times> SearchMatch \<times> bool)" where
  "PrevMatch s =
     (if length (matches s) = 0 then Inr (s, zeroMatch, False)
      else
        (let s1 = s\<lparr>currentIndex := currentIndex s - 1\<rparr>;
             s2 = (if currentIndex s1 < 0
                   then s1\<lparr>currentIndex := int (length (matches s1)) - 1\<rparr> else s1)
         in matchAt s2))"

definition GetCurrentMatch :: "SearchState \<Rightarrow> SearchMatch \<times> bool" where
  "GetCurrentMatch s =
     (if currentIndex s < 0 \<or> currentIndex s \<ge> int (length (matches s)) then (zeroMatch, False)
      else (matches s ! nat (currentIndex s), True))"

section \<open>Properties of the search\<close>

subsection \<open>Termination and the order of the matches\<close>

lemma Index_Some_bound: "Index h sub = Some p \<Longrightarrow> p + length sub \<le> length h"
proof (induction h arbitrary: p)
  case Nil
  then show ?case by (simp split: if_splits)
next
  case (Cons c cs)
  show ?case
  proof (cases "take (length sub) (c # cs) = sub")
    case True
    then have "length (take (length sub) (c # cs)) = length sub" by simp
    then have "min (length sub) (length (c # cs)) = length sub" by (simp only: length_take)
    then have "length sub \<le> length (c # cs)" by arith
    moreover from True Cons.prems have "p = 0" by simp
    ultimately show ?thesis by simp
  next
    case False
    with Cons.prems obtain q where q: "Index cs sub = Some q" "p = Suc q" by auto
    from Cons.IH [OF q(1)] q(2) show ?thesis by simp
  qed
qed

text \<open>
  The order of the claim: \<open>a\<close> is on an earlier line than \<open>b\<close>, or on the same line and
  \<open>b\<close> starts at or after the end of \<open>a\<close> (a match is \<open>n\<close> bytes long, the length of
  the search term as it is searched for).
\<close>

definition matchBefore :: "nat \<Rightarrow> SearchMatch \<Rightarrow> SearchMatch \<Rightarrow> bool" where
  "matchBefore n a b \<longleftrightarrow>
     lineNumber a < lineNumber b \<or> (lineNumber a = lineNumber b \<and> column a + n \<le> column b)"

lemma findInLine_total:
  assumes "searchTerm \<noteq> []"
  shows "\<exists>new. findInLine ln pl pm sl searchTerm index ms = Some (ms @ new)
           \<and> list_all (\<lambda>m. lineNumber m = ln \<and> index \<le> column m) new
           \<and> sorted_wrt (matchBefore (length searchTerm)) new"
proof (induction "length sl - index" arbitrary: index ms rule: less_induct)
  case less
  show ?case
  proof (cases "Index (drop index sl) searchTerm")
    case None
    then have "findInLine ln pl pm sl searchTerm index ms = Some (ms @ [])"
      by (subst findInLine.simps) simp
    then show ?thesis by (intro exI [of _ "[]"]) simp
  next
    case (Some pos)
    define actualPos where "actualPos = index + pos"
    define m where "m = \<lparr>lineNumber = ln, column = actualPos,
        originalColumn = (if actualPos < length pm then pm ! actualPos else 0),
        text' = (if actualPos + length searchTerm \<le> length pl
                 then slice pl actualPos (actualPos + length searchTerm) else [])\<rparr>"
    define index' where "index' = actualPos + length searchTerm"
    have step: "findInLine ln pl pm sl searchTerm index ms
                  = findInLine ln pl pm sl searchTerm index' (ms @ [m])"
      by (subst findInLine.simps) (simp add: Some Let_def actualPos_def m_def index'_def)
    from Index_Some_bound [OF Some] have b: "pos + length searchTerm \<le> length sl - index" by simp
    from assms have p: "0 < length searchTerm" by simp
    from b p have dec: "length sl - index' < length sl - index"
      unfolding index'_def actualPos_def by linarith
    from p have idx: "index < index'"
      unfolding index'_def actualPos_def by linarith
    from less [OF dec, of "ms @ [m]"] obtain new' where
      r: "findInLine ln pl pm sl searchTerm index' (ms @ [m]) = Some ((ms @ [m]) @ new')"
      and a: "list_all (\<lambda>m. lineNumber m = ln \<and> index' \<le> column m) new'"
      and s: "sorted_wrt (matchBefore (length searchTerm)) new'"
      by blast
    have "findInLine ln pl pm sl searchTerm index ms = Some (ms @ (m # new'))"
      using step r by simp
    moreover have "list_all (\<lambda>m. lineNumber m = ln \<and> index \<le> column m) (m # new')"
      using a idx by (auto simp: list_all_iff m_def actualPos_def)
    moreover have "sorted_wrt (matchBefore (length searchTerm)) (m # new')"
      using a s by (auto simp: list_all_iff matchBefore_def m_def index'_def)
    ultimately show ?thesis by blast
  qed
qed

lemma findInLines_total:
  assumes "searchTerm \<noteq> []"
  shows "\<exists>new. findInLines U cs searchTerm ln lines ms = Some (ms @ new)
           \<and> list_all (\<lambda>m. ln \<le> lineNumber m) new
           \<and> sorted_wrt (matchBefore (length searchTerm)) new"
proof (induction lines arbitrary: ln ms)
  case Nil
  show ?case by (intro exI [of _ "[]"]) simp
next
  case (Cons line rest)
  obtain plainLine posMap where sp: "stripANSIWithMapping line = (plainLine, posMap)"
    by (cases "stripANSIWithMapping line")
  define searchLine where "searchLine = (if \<not> cs then ToLower U plainLine else plainLine)"
  from findInLine_total [OF assms, of ln plainLine posMap searchLine 0 ms]
  obtain new1 where
    r1: "findInLine ln plainLine posMap searchLine searchTerm 0 ms = Some (ms @ new1)"
    and a1: "list_all (\<lambda>m. lineNumber m = ln \<and> 0 \<le> column m) new1"
    and s1: "sorted_wrt (matchBefore (length searchTerm)) new1"
    by blast
  from Cons.IH [of "ln + 1" "ms @ new1"] obtain new2 where
    r2: "findInLines U cs searchTerm (ln + 1) rest (ms @ new1) = Some ((ms @ new1) @ new2)"
    and a2: "list_all (\<lambda>m. ln + 1 \<le> lineNumber m) new2"
    and s2: "sorted_wrt (matchBefore (length searchTerm)) new2"
    by blast
  have "findInLines U cs searchTerm ln (line # rest) ms = Some (ms @ (new1 @ new2))"
    using sp r1 r2 by (simp add: searchLine_def)
  moreover have "list_all (\<lambda>m. ln \<le> lineNumber m) (new1 @ new2)"
    using a1 a2 by (auto simp: list_all_iff)
  moreover have "sorted_wrt (matchBefore (length searchTerm)) (new1 @ new2)"
    using a1 a2 s1 s2 by (auto simp: sorted_wrt_append list_all_iff matchBefore_def)
  ultimately show ?case by blast
qed

lemma ToLower_nonempty:
  "\<forall>x. x \<noteq> [] \<longrightarrow> U x \<noteq> [] \<Longrightarrow> t \<noteq> [] \<Longrightarrow> ToLower U t \<noteq> []"
  by (simp add: ToLower_def)

lemma searchTermOf_nonempty:
  "\<forall>x. x \<noteq> [] \<longrightarrow> U x \<noteq> [] \<Longrightarrow> term' s \<noteq> [] \<Longrightarrow> searchTermOf U s \<noteq> []"
  by (simp add: searchTermOf_def ToLower_nonempty)

lemma findAllMatches_total:
  assumes "\<forall>x. x \<noteq> [] \<longrightarrow> U x \<noteq> []"
  shows "\<exists>ms. findAllMatches U content s = Some (s\<lparr>matches := ms\<rparr>)
           \<and> sorted_wrt (matchBefore (length (searchTermOf U s))) ms"
proof (cases "term' s = []")
  case True
  then have "findAllMatches U content s = Some (s\<lparr>matches := []\<rparr>)"
    by (simp add: findAllMatches_def)
  then show ?thesis by (intro exI [of _ "[]"]) simp
next
  case False
  then have "term' (s\<lparr>matches := []\<rparr>) \<noteq> []" by simp
  with assms have ne: "searchTermOf U (s\<lparr>matches := []\<rparr>) \<noteq> []"
    by (rule searchTermOf_nonempty)
  have eq: "searchTermOf U (s\<lparr>matches := []\<rparr>) = searchTermOf U s"
    by (simp add: searchTermOf_def)
  from findInLines_total [OF ne, of U "caseSensitive s" 0 "SplitLines content" "[]"]
  obtain new where
    r: "findInLines U (caseSensitive s) (searchTermOf U (s\<lparr>matches := []\<rparr>)) 0
          (SplitLines content) [] = Some new"
    and s: "sorted_wrt (matchBefore (length (searchTermOf U (s\<lparr>matches := []\<rparr>)))) new"
    by auto
  from False r have "findAllMatches U content s = Some (s\<lparr>matches := new\<rparr>)"
    by (simp add: findAllMatches_def Let_def)
  with s eq show ?thesis by auto
qed

text \<open>
  C4. For every search term and content, \<open>findAllMatches\<close> returns (the loop ends, given
  that lower-casing a non-empty string gives a non-empty string), and the matches it
  stores are in line-ascending, then column-ascending order, with no overlap: of two
  matches on one line, the later one starts at or after the end of the earlier one, since
  the search resumes at \<open>actualPos + len(searchTerm)\<close>.
\<close>

theorem findAllMatches_order:
  assumes "\<forall>x. x \<noteq> [] \<longrightarrow> U x \<noteq> []"
  shows "\<exists>s'. findAllMatches U content s = Some s'
           \<and> sorted_wrt (matchBefore (length (searchTermOf U s))) (matches s')"
proof -
  from findAllMatches_total [OF assms, of content s] obtain ms where
    "findAllMatches U content s = Some (s\<lparr>matches := ms\<rparr>)"
    "sorted_wrt (matchBefore (length (searchTermOf U s))) ms" by blast
  then show ?thesis by (intro exI [of _ "s\<lparr>matches := ms\<rparr>"]) simp
qed

text \<open>The term \<open>aa\<close> in the two lines \<open>aaaaa\<close> and \<open>xaa\<close>: columns 0 and 2, then column 1.\<close>

definition fooState :: SearchState where
  "fooState = NewSearchState\<lparr>term' := ''aa''\<rparr>"

definition fooContent :: string where
  "fooContent = ''aaaaa'' @ [CHR 0x0A] @ ''xaa''"

theorem findAllMatches_order_witness:
  "(\<exists>s'. findAllMatches id fooContent fooState = Some s'
           \<and> sorted_wrt (matchBefore (length (searchTermOf id fooState))) (matches s'))
   \<and> map_option (map (\<lambda>m. (lineNumber m, column m)) \<circ> matches)
        (findAllMatches id fooContent fooState) = Some [(0, 0), (0, 2), (1, 1)]"
proof -
  have h: "\<forall>x::string. x \<noteq> [] \<longrightarrow> id x \<noteq> []" by simp
  have "map_option (map (\<lambda>m. (lineNumber m, column m)) \<circ> matches)
        (findAllMatches id fooContent fooState) = Some [(0, 0), (0, 2), (1, 1)]"
    by code_simp
  with findAllMatches_order [OF h, of fooContent fooState] show ?thesis by blast
qed

subsection \<open>Cursor navigation\<close>

lemma goRem_in_range: "0 \<le> a \<Longrightarrow> a < n \<Longrightarrow> goRem a n = a"
  by (simp add: goRem_def sgn_if)

lemma goRem_self: "0 < n \<Longrightarrow> goRem n n = 0"
  by (simp add: goRem_def)

lemma NextMatch_cyclic:
  assumes "matches s \<noteq> []" and "- 1 \<le> currentIndex s"
    and "currentIndex s < int (length (matches s))"
  shows "NextMatch s =
     (let k = (if currentIndex s + 1 = int (length (matches s)) then 0 else currentIndex s + 1)
      in Inr (s\<lparr>currentIndex := k\<rparr>, matches s ! nat k, True))"
proof (cases "currentIndex s + 1 = int (length (matches s))")
  case True
  with assms(1) have "goRem (currentIndex s + 1) (int (length (matches s))) = 0"
    by (simp add: goRem_self)
  with True assms(1) show ?thesis
    by (simp add: NextMatch_def matchAt_def Let_def)
next
  case False
  with assms have "goRem (currentIndex s + 1) (int (length (matches s))) = currentIndex s + 1"
    by (intro goRem_in_range) auto
  with False assms show ?thesis
    by (simp add: NextMatch_def matchAt_def Let_def)
qed

lemma PrevMatch_cyclic:
  assumes "matches s \<noteq> []" and "- 1 \<le> currentIndex s"
    and "currentIndex s < int (length (matches s))"
  shows "PrevMatch s =
     (let k = (if currentIndex s \<le> 0 then int (length (matches s)) - 1 else currentIndex s - 1)
      in Inr (s\<lparr>currentIndex := k\<rparr>, matches s ! nat k, True))"
  using assms by (auto simp add: PrevMatch_def matchAt_def Let_def)

text \<open>
  C5. On an empty match list \<open>NextMatch\<close> and \<open>PrevMatch\<close> return the zero match with a
  false flag, without a panic and with the state, cursor included, as it was. On a
  non-empty list, with the cursor in range (or at \<open>-1\<close>), \<open>NextMatch\<close> moves the cursor
  forward and wraps from the last match to the first, \<open>PrevMatch\<close> moves it back and
  wraps from the first to the last, and each returns the match at the new cursor.
  \<open>GetCurrentMatch\<close> returns the match at the cursor, or the zero match with a false
  flag when the cursor is out of range.
\<close>

theorem cursor_navigation:
  "(matches s = [] \<longrightarrow>
      NextMatch s = Inr (s, zeroMatch, False) \<and> PrevMatch s = Inr (s, zeroMatch, False))
   \<and> (matches s \<noteq> [] \<and> - 1 \<le> currentIndex s \<and> currentIndex s < int (length (matches s)) \<longrightarrow>
      NextMatch s =
        (let k = (if currentIndex s + 1 = int (length (matches s)) then 0 else currentIndex s + 1)
         in Inr (s\<lparr>currentIndex := k\<rparr>, matches s ! nat k, True))
      \<and> PrevMatch s =
        (let k = (if currentIndex s \<le> 0 then int (length (matches s)) - 1 else currentIndex s - 1)
         in Inr (s\<lparr>currentIndex := k\<rparr>, matches s ! nat k, True)))
   \<and> GetCurrentMatch s =
       (if 0 \<le> currentIndex s \<and> currentIndex s < int (length (matches s))
        then (matches s ! nat (currentIndex s), True) else (zeroMatch, False))"
proof -
  have empty: "matches s = [] \<longrightarrow>
      NextMatch s = Inr (s, zeroMatch, False) \<and> PrevMatch s = Inr (s, zeroMatch, False)"
    by (simp add: NextMatch_def PrevMatch_def)
  have cyclic: "matches s \<noteq> [] \<and> - 1 \<le> currentIndex s \<and> currentIndex s < int (length (matches s)) \<longrightarrow>
      NextMatch s =
        (let k = (if currentIndex s + 1 = int (length (matches s)) then 0 else currentIndex s + 1)
         in Inr (s\<lparr>currentIndex := k\<rparr>, matches s ! nat k, True))
      \<and> PrevMatch s =
        (let k = (if currentIndex s \<le> 0 then int (length (matches s)) - 1 else currentIndex s - 1)
         in Inr (s\<lparr>currentIndex := k\<rparr>, matches s ! nat k, True))"
    using NextMatch_cyclic [of s] PrevMatch_cyclic [of s] by blast
  have current: "GetCurrentMatch s =
       (if 0 \<le> currentIndex s \<and> currentIndex s < int (length (matches s))
        then (matches s ! nat (currentIndex s), True) else (zeroMatch, False))"
    by (auto simp add: GetCurrentMatch_def)
  from empty cyclic current show ?thesis by blast
qed

text \<open>A state with two matches, and the cursor at \<open>ci\<close>.\<close>

definition mA :: SearchMatch where
  "mA = \<lparr>lineNumber = 0, column = 2, originalColumn = 2, text' = ''foo''\<rparr>"

definition mB :: SearchMatch where
  "mB = \<lparr>lineNumber = 0, column = 8, originalColumn = 8, text' = ''foo''\<rparr>"

definition twoMatches :: "int \<Rightarrow> SearchState" where
  "twoMatches ci =
     \<lparr>active = False, term' = ''foo'', matches = [mA, mB], currentIndex = ci,
      caseSensitive = False\<rparr>"

theorem cursor_navigation_witness:
  "NextMatch (twoMatches 1) = Inr (twoMatches 0, mA, True)
   \<and> PrevMatch (twoMatches 0) = Inr (twoMatches 1, mB, True)
   \<and> NextMatch NewSearchState = Inr (NewSearchState, zeroMatch, False)
   \<and> PrevMatch NewSearchState = Inr (NewSearchState, zeroMatch, False)
   \<and> GetCurrentMatch (twoMatches 1) = (mB, True)
   \<and> GetCurrentMatch NewSearchState = (zeroMatch, False)"
  using cursor_navigation [of "twoMatches 1"] cursor_navigation [of "twoMatches 0"]
    cursor_navigation [of NewSearchState]
  by (simp add: twoMatches_def NewSearchState_def)

subsection \<open>The cursor when there are no matches\<close>

lemma SetTerm_result:
  assumes "\<forall>x. x \<noteq> [] \<longrightarrow> U x \<noteq> []"
  shows "\<exists>ms. SetTerm U t content s =
           Some (s\<lparr>term' := t, matches := ms,
                   currentIndex := (if ms = [] then currentIndex s else 0)\<rparr>)"
proof -
  from findAllMatches_total [OF assms, of content "s\<lparr>term' := t\<rparr>"] obtain ms where
    "findAllMatches U content (s\<lparr>term' := t\<rparr>) = Some (s\<lparr>term' := t, matches := ms\<rparr>)"
    by auto
  then have "SetTerm U t content s =
           Some (s\<lparr>term' := t, matches := ms,
                   currentIndex := (if ms = [] then currentIndex s else 0)\<rparr>)"
    by (simp add: SetTerm_def)
  then show ?thesis by blast
qed

text \<open>
  C8 (as amended). \<open>NewSearchState\<close> and \<open>Clear\<close> leave the match list empty and
  \<open>currentIndex\<close> at \<open>-1\<close>. \<open>SetTerm\<close> returns; it sets \<open>currentIndex\<close> to \<open>0\<close> when it
  finds a match and leaves \<open>currentIndex\<close> as it was when it finds none. So after a
  \<open>SetTerm\<close> that finds nothing \<open>currentIndex\<close> is \<open>-1\<close> when it was \<open>-1\<close> before (a new or
  cleared state), and is the old cursor otherwise; either way \<open>GetCurrentMatch\<close> then
  reports that there is no current match.
\<close>

theorem cursor_when_empty:
  assumes "\<forall>x. x \<noteq> [] \<longrightarrow> U x \<noteq> []"
  shows "matches NewSearchState = [] \<and> currentIndex NewSearchState = - 1
    \<and> matches (Clear s) = [] \<and> currentIndex (Clear s) = - 1
    \<and> (\<exists>s'. SetTerm U t content s = Some s'
          \<and> (matches s' = [] \<longrightarrow>
                currentIndex s' = currentIndex s \<and> GetCurrentMatch s' = (zeroMatch, False))
          \<and> (matches s' \<noteq> [] \<longrightarrow> currentIndex s' = 0))"
proof -
  from SetTerm_result [OF assms, of t content s] obtain ms where
    "SetTerm U t content s =
       Some (s\<lparr>term' := t, matches := ms,
               currentIndex := (if ms = [] then currentIndex s else 0)\<rparr>)"
    by blast
  then have "\<exists>s'. SetTerm U t content s = Some s'
          \<and> (matches s' = [] \<longrightarrow>
                currentIndex s' = currentIndex s \<and> GetCurrentMatch s' = (zeroMatch, False))
          \<and> (matches s' \<noteq> [] \<longrightarrow> currentIndex s' = 0)"
    by (auto simp add: GetCurrentMatch_def)
  then show ?thesis by (simp add: NewSearchState_def Clear_def)
qed

text \<open>
  From a state with two matches and the cursor at 1, a search that finds nothing leaves
  the cursor at 1.
\<close>

theorem cursor_when_empty_witness:
  "(matches NewSearchState = [] \<and> currentIndex NewSearchState = - 1
    \<and> matches (Clear (twoMatches 1)) = [] \<and> currentIndex (Clear (twoMatches 1)) = - 1
    \<and> (\<exists>s'. SetTerm id ''b'' ''a'' (twoMatches 1) = Some s'
          \<and> (matches s' = [] \<longrightarrow>
                currentIndex s' = currentIndex (twoMatches 1)
                \<and> GetCurrentMatch s' = (zeroMatch, False))
          \<and> (matches s' \<noteq> [] \<longrightarrow> currentIndex s' = 0)))
   \<and> map_option (\<lambda>s'. (matches s', currentIndex s')) (SetTerm id ''b'' ''a'' (twoMatches 1))
        = Some ([], 1)"
proof -
  have h: "\<forall>x::string. x \<noteq> [] \<longrightarrow> id x \<noteq> []" by simp
  have "map_option (\<lambda>s'. (matches s', currentIndex s')) (SetTerm id ''b'' ''a'' (twoMatches 1))
        = Some ([], 1)"
    by code_simp
  with cursor_when_empty [OF h, of "twoMatches 1" "''b''" "''a''"] show ?thesis by blast
qed

text \<open>
  C8 as stated fails: a search for \<open>a\<close> in \<open>a\<close> finds a match and sets the cursor to 0;
  a second search, for \<open>b\<close>, finds none, and the cursor is still 0 on the empty list.
\<close>

theorem SetTerm_stale_cursor_counterexample:
  "Option.bind (SetTerm id ''a'' ''a'' NewSearchState) (SetTerm id ''b'' ''a'')
     = Some \<lparr>active = False, term' = ''b'', matches = [], currentIndex = 0,
              caseSensitive = False\<rparr>"
  by code_simp

subsection \<open>Toggling case sensitivity\<close>

lemma findAllMatches_matches_cong:
  "term' a = term' b \<Longrightarrow> caseSensitive a = caseSensitive b \<Longrightarrow>
     map_option matches (findAllMatches U content a) = map_option matches (findAllMatches U content b)"
  by (simp add: findAllMatches_def searchTermOf_def Let_def option.map_comp comp_def)

lemma SetTerm_matches:
  "map_option matches (SetTerm U t content s)
     = map_option matches (findAllMatches U content (s\<lparr>term' := t\<rparr>))"
  by (simp add: SetTerm_def split: option.splits)

text \<open>
  C9 (as amended). \<open>ToggleCaseSensitive\<close> flips the flag and nothing else: the stored match
  list is the one from before. The next \<open>SetTerm\<close> recomputes the list in full under the
  new flag: the list it stores is the list that a search from a new state with that flag
  stores, whatever list was there before.
\<close>

theorem toggle_then_search:
  assumes "\<forall>x. x \<noteq> [] \<longrightarrow> U x \<noteq> []"
  shows "ToggleCaseSensitive s = s\<lparr>caseSensitive := \<not> caseSensitive s\<rparr>
    \<and> matches (ToggleCaseSensitive s) = matches s
    \<and> (\<exists>ms. map_option matches (SetTerm U t content (ToggleCaseSensitive s)) = Some ms
          \<and> map_option matches
               (SetTerm U t content (NewSearchState\<lparr>caseSensitive := \<not> caseSensitive s\<rparr>))
              = Some ms)"
proof -
  have "map_option matches (SetTerm U t content (ToggleCaseSensitive s))
      = map_option matches
          (SetTerm U t content (NewSearchState\<lparr>caseSensitive := \<not> caseSensitive s\<rparr>))"
    unfolding SetTerm_matches
    by (rule findAllMatches_matches_cong) (simp_all add: ToggleCaseSensitive_def)
  moreover from SetTerm_result [OF assms, of t content "ToggleCaseSensitive s"]
  have "\<exists>ms. map_option matches (SetTerm U t content (ToggleCaseSensitive s)) = Some ms"
    by auto
  ultimately show ?thesis by (auto simp add: ToggleCaseSensitive_def)
qed

definition threeFoo :: string where
  "threeFoo = ''foo FOO Foo''"

theorem toggle_then_search_witness:
  "ToggleCaseSensitive NewSearchState = NewSearchState\<lparr>caseSensitive := \<not> caseSensitive NewSearchState\<rparr>
    \<and> matches (ToggleCaseSensitive NewSearchState) = matches NewSearchState
    \<and> (\<exists>ms. map_option matches (SetTerm id ''Foo'' threeFoo (ToggleCaseSensitive NewSearchState)) = Some ms
          \<and> map_option matches
               (SetTerm id ''Foo'' threeFoo (NewSearchState\<lparr>caseSensitive := \<not> caseSensitive NewSearchState\<rparr>))
              = Some ms)"
proof -
  have h: "\<forall>x::string. x \<noteq> [] \<longrightarrow> id x \<noteq> []" by simp
  show ?thesis by (rule toggle_then_search [OF h])
qed

text \<open>
  C9 as stated fails: after a case-insensitive search for \<open>Foo\<close> in \<open>foo FOO Foo\<close> and a
  toggle, the stored list still has the three matches at columns 0, 4 and 8; a search
  under the new flag has the one match at column 8.
\<close>

theorem toggle_keeps_matches_counterexample:
  "map_option (\<lambda>s. map column (matches (ToggleCaseSensitive s)))
      (SetTerm id ''Foo'' threeFoo NewSearchState) = Some [0, 4, 8]
   \<and> map_option (\<lambda>s. map column (matches s))
      (SetTerm id ''Foo'' threeFoo (NewSearchState\<lparr>caseSensitive := True\<rparr>)) = Some [8]"
  by code_simp

section \<open>addHyperlinks (hyperlinks.go)\<close>

subsection \<open>The pattern \<open>\]\(([^)]+)\)\<close>\<close>

text \<open>
  \<open>indexByteFrom c s p\<close> is the offset of the first byte \<open>c\<close> at or after offset \<open>p\<close>.
\<close>

definition indexByteFrom :: "char \<Rightarrow> string \<Rightarrow> nat \<Rightarrow> nat option" where
  "indexByteFrom c s p =
     (if c \<in> set (drop p s) then Some (p + length (takeWhile (\<lambda>x. x \<noteq> c) (drop p s))) else None)"

text \<open>
  A match of the pattern that starts at offset \<open>k\<close>: the bytes \<open>](\<close>, then one or more
  bytes other than \<open>)\<close>, then \<open>)\<close>. The class \<open>[^)]\<close> takes any byte but \<open>)\<close> (a byte
  that is not valid UTF-8 is read as U+FFFD, which is in the class), so the group ends at
  the first \<open>)\<close> after its first byte. The result is \<open>(match[0], match[1], match[2],
  match[3])\<close>: the start and end of the match and of the group.
\<close>

definition closeBracketAt :: "string \<Rightarrow> nat \<Rightarrow> (nat \<times> nat \<times> nat \<times> nat) option" where
  "closeBracketAt s k =
     (if k + 2 < length s \<and> s ! k = CHR '']'' \<and> s ! (k + 1) = CHR ''('' \<and> s ! (k + 2) \<noteq> CHR '')''
      then (case indexByteFrom (CHR '')'') s (k + 3) of
              None \<Rightarrow> None
            | Some m \<Rightarrow> Some (k, m + 1, k + 2, m))
      else None)"

lemma indexByteFrom_ge: "indexByteFrom c s p = Some m \<Longrightarrow> p \<le> m"
  by (auto simp: indexByteFrom_def split: if_splits)

lemma closeBracketAt_end: "closeBracketAt s k = Some (a, e, us, ue) \<Longrightarrow> k < e"
  by (auto simp: closeBracketAt_def split: if_splits option.splits dest: indexByteFrom_ge)

text \<open>
  \<open>FindAllStringSubmatchIndex(result, -1)\<close>: the leftmost match, then the leftmost match
  that starts at or after its end, and so on.
\<close>

function closeBracketMatches :: "string \<Rightarrow> nat \<Rightarrow> (nat \<times> nat \<times> nat \<times> nat) list" where
  "closeBracketMatches s p =
     (if p < length s then
        (case closeBracketAt s p of
           None \<Rightarrow> closeBracketMatches s (p + 1)
         | Some m \<Rightarrow> m # closeBracketMatches s (fst (snd m)))
      else [])"
  by pat_completeness auto
termination
proof (relation "measure (\<lambda>(s, p). length s - p)")
  show "wf (measure (\<lambda>(s, p). length s - p))" by simp
next
  fix s :: string and p :: nat
  assume "p < length s"
  then show "((s, p + 1), (s, p)) \<in> measure (\<lambda>(s, p). length s - p)" by simp
next
  fix s :: string and p :: nat and m :: "nat \<times> nat \<times> nat \<times> nat"
  assume "p < length s" and "closeBracketAt s p = Some m"
  then have "p < fst (snd m)" by (cases m) (auto dest: closeBracketAt_end)
  with \<open>p < length s\<close>
  show "((s, fst (snd m)), (s, p)) \<in> measure (\<lambda>(s, p). length s - p)" by simp
qed

declare closeBracketMatches.simps [simp del]

subsection \<open>The backward scan for the opening bracket\<close>

text \<open>
  \<^verbatim>\<open>for pos := closeBracketPos - 1; pos >= 0; pos--\<close>: \<open>backtrack result n\<close> is the loop
  with \<open>n\<close> positions left to look at, \<open>pos = n - 1\<close> being the next one; it starts with
  \<open>n = closeBracketPos\<close>. The result is \<open>openBracketPos\<close>, \<open>None\<close> for \<open>-1\<close>.
\<close>

fun backtrack :: "string \<Rightarrow> nat \<Rightarrow> nat option" where
  "backtrack result 0 = None"
| "backtrack result (Suc pos) =
     (if result ! pos = CHR ''['' then
        (if pos > 0 \<and> result ! (pos - 1) = ESC then backtrack result pos else Some pos)
      else backtrack result pos)"

text \<open>
  The entries of \<open>validMatches\<close>: \<open>(matchStart, matchEnd, textStart, textEnd, urlStart,
  urlEnd)\<close>.
\<close>

type_synonym linkMatch = "nat \<times> nat \<times> nat \<times> nat \<times> nat \<times> nat"

fun validMatch :: "string \<Rightarrow> nat \<times> nat \<times> nat \<times> nat \<Rightarrow> linkMatch option" where
  "validMatch result (closeBracketPos, matchEnd, urlStart, urlEnd) =
     (case backtrack result closeBracketPos of
        None \<Rightarrow> None
      | Some openBracketPos \<Rightarrow>
          Some (openBracketPos, matchEnd, openBracketPos + 1, closeBracketPos, urlStart, urlEnd))"

definition validMatches :: "string \<Rightarrow> linkMatch list" where
  "validMatches result = List.map_filter (validMatch result) (closeBracketMatches result 0)"

subsection \<open>The URL of a match\<close>

text \<open>
  \<open>strings.TrimSpace\<close>: leading and trailing ASCII white space is cut off byte by
  byte; when a byte outside ASCII is met on the way, the rest is left to
  \<open>TrimFunc(_, unicode.IsSpace)\<close>, the parameter \<open>T\<close> here (at the right end the left
  end is already trimmed, so trimming both ends there is trimming the right one).
\<close>

definition asciiSpace :: "char \<Rightarrow> bool" where
  "asciiSpace c \<longleftrightarrow> c \<in> {CHR 0x09, CHR 0x0A, CHR 0x0B, CHR 0x0C, CHR 0x0D, CHR '' ''}"

definition isASCII :: "char \<Rightarrow> bool" where
  "isASCII c \<longleftrightarrow> (of_char c :: nat) < 0x80"

fun trimRight :: "(string \<Rightarrow> string) \<Rightarrow> string \<Rightarrow> string" where
  "trimRight T [] = []"
| "trimRight T (c # cs) =
     (if \<not> isASCII (last (c # cs)) then T (c # cs)
      else if asciiSpace (last (c # cs)) then trimRight T (butlast (c # cs))
      else c # cs)"

fun TrimSpace :: "(string \<Rightarrow> string) \<Rightarrow> string \<Rightarrow> string" where
  "TrimSpace T [] = []"
| "TrimSpace T (c # cs) =
     (if \<not> isASCII c then T (c # cs)
      else if asciiSpace c then TrimSpace T cs
      else trimRight T (c # cs))"

text \<open>
  The URL: control sequences stripped, white space trimmed, cut at the first space.
\<close>

definition linkURL :: "(string \<Rightarrow> string) \<Rightarrow> string \<Rightarrow> string" where
  "linkURL T urlPartWithANSI =
     (let url = TrimSpace T (stripANSI urlPartWithANSI)
      in case Index url '' '' of Some idx \<Rightarrow> take idx url | None \<Rightarrow> url)"

text \<open>\<^verbatim>\<open>strings.Contains(url, "://") || strings.HasPrefix(url, "mailto:")\<close>\<close>

definition looksLikeURL :: "string \<Rightarrow> bool" where
  "looksLikeURL url \<longleftrightarrow> Index url ''://'' \<noteq> None \<or> take 7 url = ''mailto:''"

subsection \<open>The replacement text\<close>

text \<open>
  \<open>Config\<close> and \<open>hexToANSI\<close> are declared in files that are not part of the source
  at hand. Of the configuration only the two underline colours
  (\<open>config.Colors.HyperlinkUnderline\<close>, \<open>config.Colors.HyperlinkHoveredUnderline\<close>) are
  read; a nil pointer is \<open>None\<close>. \<open>hexToANSI\<close> is a parameter \<open>H\<close>: the colour code, or
  \<open>None\<close> for an error. \<open>showInt\<close> is the verb \<open>%d\<close>.
\<close>

record Config =
  HyperlinkUnderline :: string
  HyperlinkHoveredUnderline :: string

function showNat :: "nat \<Rightarrow> string" where
  "showNat n = (if n < 10 then [char_of (48 + n)] else showNat (n div 10) @ [char_of (48 + n mod 10)])"
  by pat_completeness auto
termination
  by (relation "measure id") auto

declare showNat.simps [simp del]

definition showInt :: "int \<Rightarrow> string" where
  "showInt i = (if i < 0 then CHR ''-'' # showNat (nat (- i)) else showNat (nat i))"

definition defaultHyperlink :: "string \<Rightarrow> string \<Rightarrow> string" where
  "defaultHyperlink url text =
     [ESC] @ ''[4m'' @ [ESC] @ '']8;;'' @ url @ [ESC, BSL] @ text
       @ [ESC] @ '']8;;'' @ [ESC, BSL] @ [ESC] @ ''[24m''"

definition colouredHyperlink :: "int \<Rightarrow> string \<Rightarrow> string \<Rightarrow> string" where
  "colouredHyperlink colorCode url text =
     [ESC] @ ''[58;5;'' @ showInt colorCode @ ''m'' @ [ESC] @ ''[4m'' @ [ESC] @ '']8;;'' @ url
       @ [ESC, BSL] @ text @ [ESC] @ '']8;;'' @ [ESC, BSL] @ [ESC] @ ''[59m'' @ [ESC] @ ''[24m''"

definition hyperlinked ::
  "(string \<Rightarrow> int option) \<Rightarrow> Config option \<Rightarrow> string \<Rightarrow> string \<Rightarrow> string \<Rightarrow> string" where
  "hyperlinked H config hoveredURL url text =
     (let isHovered = (hoveredURL \<noteq> [] \<and> url = hoveredURL);
          underlineColor =
            (case config of
               None \<Rightarrow> []
             | Some c \<Rightarrow>
                 if isHovered \<and> HyperlinkHoveredUnderline c \<noteq> [] then HyperlinkHoveredUnderline c
                 else if HyperlinkUnderline c \<noteq> [] then HyperlinkUnderline c
                 else [])
      in if underlineColor \<noteq> [] then
           (case H underlineColor of
              Some colorCode \<Rightarrow> colouredHyperlink colorCode url text
            | None \<Rightarrow> defaultHyperlink url text)
         else defaultHyperlink url text)"

subsection \<open>The replacement loop\<close>

text \<open>
  \<^verbatim>\<open>for i := len(validMatches) - 1; i >= 0; i--\<close>, as a recursion over the reversed list;
  \<open>result\<close> is the loop state. Each slice expression panics when its bounds are not
  within the current \<open>result\<close>.
\<close>

fun replaceMatches ::
  "(string \<Rightarrow> string) \<Rightarrow> (string \<Rightarrow> int option) \<Rightarrow> Config option \<Rightarrow> string \<Rightarrow> linkMatch list
     \<Rightarrow> string \<Rightarrow> panic + string" where
  "replaceMatches T H config hoveredURL [] result = Inr result"
| "replaceMatches T H config hoveredURL
     ((matchStart, matchEnd, textStart, textEnd, urlStart, urlEnd) # ms) result =
     (if \<not> (textStart \<le> textEnd \<and> textEnd \<le> length result) then Inl SliceBoundsOutOfRange
      else if \<not> (urlStart \<le> urlEnd \<and> urlEnd \<le> length result) then Inl SliceBoundsOutOfRange
      else
        (let text = slice result textStart textEnd;
             url = linkURL T (slice result urlStart urlEnd)
         in if \<not> looksLikeURL url then replaceMatches T H config hoveredURL ms result
            else if \<not> (matchStart \<le> length result \<and> matchEnd \<le> length result)
            then Inl SliceBoundsOutOfRange
            else replaceMatches T H config hoveredURL ms
                   (take matchStart result @ hyperlinked H config hoveredURL url text
                      @ drop matchEnd result)))"

definition addHyperlinks ::
  "(string \<Rightarrow> string) \<Rightarrow> (string \<Rightarrow> int option) \<Rightarrow> string \<Rightarrow> string \<Rightarrow> Config option \<Rightarrow> string
     \<Rightarrow> panic + string" where
  "addHyperlinks T H rendered originalMarkdown config hoveredURL =
     replaceMatches T H config hoveredURL (rev (validMatches rendered)) rendered"

section \<open>Properties of addHyperlinks\<close>

subsection \<open>The scans\<close>


lemma backtrack_first_byte:
  "result ! 0 = CHR ''['' \<Longrightarrow> 0 < n \<Longrightarrow> \<exists>p. backtrack result n = Some p"
proof (induction n)
  case 0
  then show ?case by simp
next
  case (Suc n)
  show ?case
  proof (cases "n = 0")
    case True
    with Suc.prems show ?thesis by simp
  next
    case False
    with Suc.IH Suc.prems(1) obtain p where "backtrack result n = Some p" by auto
    then show ?thesis by simp
  qed
qed

lemma backtrack_lt: "backtrack result n = Some p \<Longrightarrow> p < n"
  by (induction n) (auto split: if_splits)

lemma takeWhile_neq_less: "c \<in> set xs \<Longrightarrow> length (takeWhile (\<lambda>x. x \<noteq> c) xs) < length xs"
  by (induction xs) auto

lemma indexByteFrom_lt: "indexByteFrom c s p = Some m \<Longrightarrow> m < length s"
proof -
  assume m: "indexByteFrom c s p = Some m"
  then have mem: "c \<in> set (drop p s)"
    by (simp add: indexByteFrom_def split: if_splits)
  with m have mv: "m = p + length (takeWhile (\<lambda>x. x \<noteq> c) (drop p s))"
    by (simp add: indexByteFrom_def)
  from mem have "length (takeWhile (\<lambda>x. x \<noteq> c) (drop p s)) < length (drop p s)"
    by (rule takeWhile_neq_less)
  with mv show ?thesis by simp
qed

lemma closeBracketAt_Some:
  assumes "closeBracketAt s k = Some r"
  shows "\<exists>m. indexByteFrom (CHR '')'') s (k + 3) = Some m \<and> r = (k, m + 1, k + 2, m)"
proof (cases "k + 2 < length s \<and> s ! k = CHR '']'' \<and> s ! (k + 1) = CHR ''(''
                \<and> s ! (k + 2) \<noteq> CHR '')''")
  case False
  then have "closeBracketAt s k = None" unfolding closeBracketAt_def by (rule if_not_P)
  with assms show ?thesis by simp
next
  case True
  then have eq: "closeBracketAt s k =
      (case indexByteFrom (CHR '')'') s (k + 3) of
              None \<Rightarrow> None
            | Some m \<Rightarrow> Some (k, m + 1, k + 2, m))"
    unfolding closeBracketAt_def by (rule if_P)
  show ?thesis
  proof (cases "indexByteFrom (CHR '')'') s (k + 3)")
    case None
    with eq assms show ?thesis by simp
  next
    case (Some m)
    with eq assms show ?thesis by simp
  qed
qed

lemma closeBracketAt_bounds:
  "closeBracketAt s k = Some (a, e, us, ue) \<Longrightarrow>
     a = k \<and> us = k + 2 \<and> us < ue \<and> e = ue + 1 \<and> ue < length s"
proof -
  assume "closeBracketAt s k = Some (a, e, us, ue)"
  from closeBracketAt_Some [OF this] obtain m where
    m: "indexByteFrom (CHR '')'') s (k + 3) = Some m"
    and eq: "a = k" "e = m + 1" "us = k + 2" "ue = m"
    by auto
  from m have "k + 3 \<le> m" by (rule indexByteFrom_ge)
  moreover from m have "m < length s" by (rule indexByteFrom_lt)
  ultimately show ?thesis using eq by simp
qed

lemma closeBracketMatches_stop: "\<not> p < length s \<Longrightarrow> closeBracketMatches s p = []"
  by (subst closeBracketMatches.simps) simp

lemma closeBracketMatches_miss:
  "p < length s \<Longrightarrow> closeBracketAt s p = None
     \<Longrightarrow> closeBracketMatches s p = closeBracketMatches s (p + 1)"
  by (subst closeBracketMatches.simps) simp

lemma closeBracketMatches_hit:
  "p < length s \<Longrightarrow> closeBracketAt s p = Some m
     \<Longrightarrow> closeBracketMatches s p = m # closeBracketMatches s (fst (snd m))"
  by (subst closeBracketMatches.simps) simp

lemma closeBracketMatches_bounds:
  "(cb, me, us, ue) \<in> set (closeBracketMatches s p) \<Longrightarrow>
     us = cb + 2 \<and> us < ue \<and> me = ue + 1 \<and> ue < length s"
proof (induction s p rule: closeBracketMatches.induct)
  case (1 s p)
  show ?case
  proof (cases "p < length s")
    case False
    with "1.prems" show ?thesis by (simp add: closeBracketMatches_stop)
  next
    case inr: True
    show ?thesis
    proof (cases "closeBracketAt s p")
      case None
      with inr "1.prems" have "(cb, me, us, ue) \<in> set (closeBracketMatches s (p + 1))"
        by (simp add: closeBracketMatches_miss)
      with "1.IH"(1) inr None show ?thesis by blast
    next
      case (Some m)
      with inr "1.prems" have
        "(cb, me, us, ue) = m \<or> (cb, me, us, ue) \<in> set (closeBracketMatches s (fst (snd m)))"
        by (auto simp add: closeBracketMatches_hit)
      then show ?thesis
      proof
        assume "(cb, me, us, ue) = m"
        with Some have "closeBracketAt s p = Some (cb, me, us, ue)" by simp
        from closeBracketAt_bounds [OF this] show ?thesis by simp
      next
        assume "(cb, me, us, ue) \<in> set (closeBracketMatches s (fst (snd m)))"
        with "1.IH"(2) inr Some show ?thesis by blast
      qed
    qed
  qed
qed

subsection \<open>The valid matches\<close>

lemma map_filter_member:
  "y \<in> set (List.map_filter f xs) \<Longrightarrow> \<exists>x \<in> set xs. f x = Some y"
  by (induction xs) (auto split: option.splits)

lemma validMatches_set:
  assumes "vm \<in> set (validMatches s)"
  shows "\<exists>cb me us ue ob. (cb, me, us, ue) \<in> set (closeBracketMatches s 0)
           \<and> backtrack s cb = Some ob \<and> vm = (ob, me, ob + 1, cb, us, ue)"
proof -
  from assms obtain m where m: "m \<in> set (closeBracketMatches s 0)" "validMatch s m = Some vm"
    unfolding validMatches_def by (blast dest: map_filter_member)
  obtain cb me us ue where mm: "m = (cb, me, us, ue)" by (cases m)
  with m(2) obtain ob where "backtrack s cb = Some ob" "vm = (ob, me, ob + 1, cb, us, ue)"
    by (auto split: option.splits)
  with m(1) mm show ?thesis by blast
qed

subsection \<open>The pattern scan on a part of the text\<close>

text \<open>
  An occurrence of the pattern, and a valid match, with every offset moved \<open>d\<close> bytes to
  the right: what the same bytes give when \<open>d\<close> bytes stand before them.
\<close>

definition shiftOcc :: "nat \<Rightarrow> nat \<times> nat \<times> nat \<times> nat \<Rightarrow> nat \<times> nat \<times> nat \<times> nat" where
  "shiftOcc d m = (case m of (a, e, us, ue) \<Rightarrow> (d + a, d + e, d + us, d + ue))"

definition shiftMatch :: "nat \<Rightarrow> linkMatch \<Rightarrow> linkMatch" where
  "shiftMatch d m = (case m of (a, e, ts, te, us, ue) \<Rightarrow> (d + a, d + e, d + ts, d + te, d + us, d + ue))"

lemma indexByteFrom_nth: "indexByteFrom c s p = Some m \<Longrightarrow> s ! m = c"
proof -
  assume m: "indexByteFrom c s p = Some m"
  then have mem: "c \<in> set (drop p s)"
    by (simp add: indexByteFrom_def split: if_splits)
  with m have mv: "m = p + length (takeWhile (\<lambda>x. x \<noteq> c) (drop p s))"
    by (simp add: indexByteFrom_def)
  from mem have lt: "length (takeWhile (\<lambda>x. x \<noteq> c) (drop p s)) < length (drop p s)"
    by (rule takeWhile_neq_less)
  then have "drop p s ! length (takeWhile (\<lambda>x. x \<noteq> c) (drop p s)) = c"
    using nth_length_takeWhile [of "\<lambda>x. x \<noteq> c" "drop p s"] by simp
  with lt mv show ?thesis by simp
qed

lemma indexByteFrom_shift:
  "indexByteFrom c (pre @ rest) (length pre + p) = map_option ((+) (length pre)) (indexByteFrom c rest p)"
  by (simp add: indexByteFrom_def)

lemma closeBracketAt_shift:
  "closeBracketAt (pre @ rest) (length pre + q) = map_option (shiftOcc (length pre)) (closeBracketAt rest q)"
proof -
  have n: "(pre @ rest) ! (length pre + q) = rest ! q"
    "(pre @ rest) ! (length pre + q + 1) = rest ! (q + 1)"
    "(pre @ rest) ! (length pre + q + 2) = rest ! (q + 2)"
    by (simp_all add: nth_append)
  have i: "indexByteFrom (CHR '')'') (pre @ rest) (length pre + q + 3)
      = map_option ((+) (length pre)) (indexByteFrom (CHR '')'') rest (q + 3))"
    using indexByteFrom_shift [of "CHR '')''" pre rest "q + 3"] by (simp add: add.assoc)
  show ?thesis
    unfolding closeBracketAt_def n i
    by (simp add: shiftOcc_def split: option.splits)
qed

lemma closeBracketMatches_shift:
  "closeBracketMatches (pre @ rest) (length pre + p)
     = map (shiftOcc (length pre)) (closeBracketMatches rest p)"
proof (induction rest p rule: closeBracketMatches.induct)
  case (1 s p)
  show ?case
  proof (cases "p < length s")
    case False
    then show ?thesis by (simp add: closeBracketMatches_stop)
  next
    case inr: True
    then have inr': "length pre + p < length (pre @ s)" by simp
    show ?thesis
    proof (cases "closeBracketAt s p")
      case None
      then have "closeBracketAt (pre @ s) (length pre + p) = None"
        by (simp add: closeBracketAt_shift)
      from closeBracketMatches_miss [OF inr' this] closeBracketMatches_miss [OF inr None]
        "1.IH"(1) [OF inr None]
      show ?thesis by (simp add: add.assoc)
    next
      case (Some m)
      obtain a e us ue where m: "m = (a, e, us, ue)" by (cases m)
      from Some have at: "closeBracketAt (pre @ s) (length pre + p) = Some (shiftOcc (length pre) m)"
        by (simp add: closeBracketAt_shift)
      have "fst (snd (shiftOcc (length pre) m)) = length pre + fst (snd m)"
        by (simp add: m shiftOcc_def)
      with closeBracketMatches_hit [OF inr' at] closeBracketMatches_hit [OF inr Some]
        "1.IH"(2) [OF inr Some]
      show ?thesis by simp
    qed
  qed
qed

lemma closeBracketMatches_ge:
  "m \<in> set (closeBracketMatches s p) \<Longrightarrow> p \<le> fst m"
proof (induction s p rule: closeBracketMatches.induct)
  case (1 s p)
  show ?case
  proof (cases "p < length s")
    case False
    with "1.prems" show ?thesis by (simp add: closeBracketMatches_stop)
  next
    case inr: True
    show ?thesis
    proof (cases "closeBracketAt s p")
      case None
      with inr "1.prems" have "m \<in> set (closeBracketMatches s (p + 1))"
        by (simp add: closeBracketMatches_miss)
      from "1.IH"(1) [OF inr None this] show ?thesis by simp
    next
      case (Some m')
      obtain a e us ue where m': "m' = (a, e, us, ue)" by (cases m')
      from Some m' have b: "a = p" "p < e"
        using closeBracketAt_bounds [of s p a e us ue] closeBracketAt_end [of s p a e us ue] by auto
      from inr "1.prems" Some have "m = m' \<or> m \<in> set (closeBracketMatches s (fst (snd m')))"
        by (auto simp add: closeBracketMatches_hit)
      then show ?thesis
      proof
        assume "m = m'"
        with m' b show ?thesis by simp
      next
        assume "m \<in> set (closeBracketMatches s (fst (snd m')))"
        from "1.IH"(2) [OF inr Some this] m' b show ?thesis by simp
      qed
    qed
  qed
qed

lemma closeBracketMatches_head:
  assumes "m \<in> set (closeBracketMatches s p)" and "fst m = p"
  shows "closeBracketAt s p = Some m"
proof -
  have inr: "p < length s"
  proof (rule ccontr)
    assume "\<not> p < length s"
    with assms(1) show False by (simp add: closeBracketMatches_stop)
  qed
  show ?thesis
  proof (cases "closeBracketAt s p")
    case None
    with inr assms(1) have "m \<in> set (closeBracketMatches s (p + 1))"
      by (simp add: closeBracketMatches_miss)
    from closeBracketMatches_ge [OF this] assms(2) show ?thesis by simp
  next
    case (Some m')
    obtain a e us ue where m': "m' = (a, e, us, ue)" by (cases m')
    from Some m' have b: "p < e"
      using closeBracketAt_end [of s p a e us ue] by auto
    from inr assms(1) Some have "m = m' \<or> m \<in> set (closeBracketMatches s (fst (snd m')))"
      by (auto simp add: closeBracketMatches_hit)
    then show ?thesis
    proof
      assume "m = m'"
      with Some show ?thesis by simp
    next
      assume "m \<in> set (closeBracketMatches s (fst (snd m')))"
      from closeBracketMatches_ge [OF this] m' b assms(2) show ?thesis by simp
    qed
  qed
qed

lemma takeWhile_take_less:
  "length (takeWhile P xs) < k \<Longrightarrow> takeWhile P (take k xs) = takeWhile P xs"
proof (induction xs arbitrary: k)
  case Nil
  show ?case by simp
next
  case (Cons x xs)
  from Cons.prems obtain k' where k: "k = Suc k'" by (cases k) auto
  show ?case
  proof (cases "P x")
    case True
    with Cons.prems k have "length (takeWhile P xs) < k'" by simp
    from Cons.IH [OF this] True k show ?thesis by simp
  next
    case False
    with k show ?thesis by simp
  qed
qed

lemma takeWhile_take_mem:
  "c \<in> set xs \<Longrightarrow> length (takeWhile (\<lambda>x. x \<noteq> c) xs) < k \<Longrightarrow> c \<in> set (take k xs)"
proof (induction xs arbitrary: k)
  case Nil
  then show ?case by simp
next
  case (Cons x xs)
  from Cons.prems obtain k' where k: "k = Suc k'" by (cases k) auto
  show ?case
  proof (cases "x = c")
    case True
    with k show ?thesis by simp
  next
    case False
    with Cons.prems k have "c \<in> set xs" "length (takeWhile (\<lambda>x. x \<noteq> c) xs) < k'" by simp_all
    from Cons.IH [OF this] k show ?thesis by simp
  qed
qed

lemma indexByteFrom_take:
  assumes "indexByteFrom c s p = Some m" and "m < n"
  shows "indexByteFrom c (take n s) p = Some m"
proof -
  from assms(1) have mem: "c \<in> set (drop p s)"
    by (simp add: indexByteFrom_def split: if_splits)
  with assms(1) have mv: "m = p + length (takeWhile (\<lambda>x. x \<noteq> c) (drop p s))"
    by (simp add: indexByteFrom_def)
  from mv assms(2) have k: "length (takeWhile (\<lambda>x. x \<noteq> c) (drop p s)) < n - p" by simp
  have e: "drop p (take n s) = take (n - p) (drop p s)" by (simp add: drop_take)
  have "takeWhile (\<lambda>x. x \<noteq> c) (drop p (take n s)) = takeWhile (\<lambda>x. x \<noteq> c) (drop p s)"
    unfolding e using k by (rule takeWhile_take_less)
  moreover have "c \<in> set (drop p (take n s))"
    unfolding e using mem k by (rule takeWhile_take_mem)
  ultimately show ?thesis using mv by (simp add: indexByteFrom_def)
qed

lemma indexByteFrom_take_None:
  "indexByteFrom c s p = None \<Longrightarrow> indexByteFrom c (take n s) p = None"
proof -
  assume "indexByteFrom c s p = None"
  then have "c \<notin> set (drop p s)" by (simp add: indexByteFrom_def split: if_splits)
  moreover have "set (drop p (take n s)) \<subseteq> set (drop p s)"
    by (simp add: drop_take set_take_subset)
  ultimately show ?thesis by (auto simp: indexByteFrom_def)
qed

lemma closeBracketAt_take_Some:
  assumes "closeBracketAt s q = Some (a, e, us, ue)" and "e \<le> n"
  shows "closeBracketAt (take n s) q = Some (a, e, us, ue)"
proof -
  from closeBracketAt_Some [OF assms(1)] obtain m where
    m: "indexByteFrom (CHR '')'') s (q + 3) = Some m" and eq: "(a, e, us, ue) = (q, m + 1, q + 2, m)"
    by blast
  from m have ge: "q + 3 \<le> m" by (rule indexByteFrom_ge)
  from m have lt: "m < length s" by (rule indexByteFrom_lt)
  from eq assms(2) have mn: "m < n" by simp
  have c: "q + 2 < length s \<and> s ! q = CHR '']'' \<and> s ! (q + 1) = CHR ''('' \<and> s ! (q + 2) \<noteq> CHR '')''"
  proof (rule ccontr)
    assume "\<not> ?thesis"
    then have "closeBracketAt s q = None" unfolding closeBracketAt_def by (rule if_not_P)
    with assms(1) show False by simp
  qed
  from ge mn have qn: "q < n" "q + 1 < n" "q + 2 < n" by simp_all
  from ge mn lt c have
    "q + 2 < length (take n s) \<and> take n s ! q = CHR '']'' \<and> take n s ! (q + 1) = CHR ''(''
       \<and> take n s ! (q + 2) \<noteq> CHR '')''"
    by (simp only: nth_take [OF qn(1)] nth_take [OF qn(2)] nth_take [OF qn(3)] length_take) simp
  then have "closeBracketAt (take n s) q =
      (case indexByteFrom (CHR '')'') (take n s) (q + 3) of
              None \<Rightarrow> None
            | Some m \<Rightarrow> Some (q, m + 1, q + 2, m))"
    unfolding closeBracketAt_def by (rule if_P)
  with indexByteFrom_take [OF m mn] eq show ?thesis by simp
qed

lemma closeBracketAt_take_None:
  assumes "closeBracketAt s q = None"
  shows "closeBracketAt (take n s) q = None"
proof (cases "q + 2 < length (take n s) \<and> take n s ! q = CHR '']'' \<and> take n s ! (q + 1) = CHR ''(''
       \<and> take n s ! (q + 2) \<noteq> CHR '')''")
  case False
  then show ?thesis unfolding closeBracketAt_def by (rule if_not_P)
next
  case True
  then have qn: "q < n" "q + 1 < n" "q + 2 < n" and ql: "q + 2 < length s" by simp_all
  have "s ! q = CHR '']'' \<and> s ! (q + 1) = CHR ''('' \<and> s ! (q + 2) \<noteq> CHR '')''"
    using True unfolding nth_take [OF qn(1)] nth_take [OF qn(2)] nth_take [OF qn(3)] by blast
  with ql have c: "q + 2 < length s \<and> s ! q = CHR '']'' \<and> s ! (q + 1) = CHR ''('' \<and> s ! (q + 2) \<noteq> CHR '')''"
    by simp
  then have "closeBracketAt s q =
      (case indexByteFrom (CHR '')'') s (q + 3) of
              None \<Rightarrow> None
            | Some m \<Rightarrow> Some (q, m + 1, q + 2, m))"
    unfolding closeBracketAt_def by (rule if_P)
  with assms have "indexByteFrom (CHR '')'') s (q + 3) = None"
    by (simp split: option.splits)
  then have i: "indexByteFrom (CHR '')'') (take n s) (q + 3) = None"
    by (rule indexByteFrom_take_None)
  from True have "closeBracketAt (take n s) q =
      (case indexByteFrom (CHR '')'') (take n s) (q + 3) of
              None \<Rightarrow> None
            | Some m \<Rightarrow> Some (q, m + 1, q + 2, m))"
    unfolding closeBracketAt_def by (rule if_P)
  with i show ?thesis by simp
qed

lemma closeBracketMatches_split:
  "(cb, me, us, ue) \<in> set (closeBracketMatches s p) \<Longrightarrow>
     closeBracketMatches s p
       = closeBracketMatches (take cb s) p @ (cb, me, us, ue) # closeBracketMatches s me"
proof (induction s p rule: closeBracketMatches.induct)
  case (1 s p)
  let ?m = "(cb, me, us, ue)"
  from closeBracketMatches_ge [OF "1.prems"] have ple: "p \<le> cb" by simp
  from closeBracketMatches_bounds [OF "1.prems"] have cbl: "cb < length s" by simp
  show ?case
  proof (cases "p = cb")
    case True
    with "1.prems" have at: "closeBracketAt s p = Some ?m"
      by (intro closeBracketMatches_head) simp_all
    from True cbl have "p < length s" by simp
    from closeBracketMatches_hit [OF this at]
    have "closeBracketMatches s p = ?m # closeBracketMatches s me" by simp
    moreover from True have "closeBracketMatches (take cb s) p = []"
      by (simp add: closeBracketMatches_stop)
    ultimately show ?thesis by simp
  next
    case False
    with ple have plt: "p < cb" by simp
    with cbl have inr: "p < length s" and inr': "p < length (take cb s)" by simp_all
    show ?thesis
    proof (cases "closeBracketAt s p")
      case None
      with inr "1.prems" have mem: "?m \<in> set (closeBracketMatches s (p + 1))"
        by (simp add: closeBracketMatches_miss)
      from None have "closeBracketAt (take cb s) p = None" by (rule closeBracketAt_take_None)
      from closeBracketMatches_miss [OF inr' this] closeBracketMatches_miss [OF inr None]
        "1.IH"(1) [OF inr None mem]
      show ?thesis by simp
    next
      case (Some m')
      obtain a e us' ue' where m': "m' = (a, e, us', ue')" by (cases m')
      from Some m' have a: "a = p"
        using closeBracketAt_bounds [of s p a e us' ue'] by auto
      from inr "1.prems" Some have "?m = m' \<or> ?m \<in> set (closeBracketMatches s (fst (snd m')))"
        by (auto simp add: closeBracketMatches_hit)
      with m' a False have mem: "?m \<in> set (closeBracketMatches s (fst (snd m')))" by auto
      from closeBracketMatches_ge [OF mem] m' have "e \<le> cb" by simp
      with Some m' have "closeBracketAt (take cb s) p = Some m'"
        by (simp add: closeBracketAt_take_Some)
      from closeBracketMatches_hit [OF inr' this] closeBracketMatches_hit [OF inr Some]
        "1.IH"(2) [OF inr Some mem]
      show ?thesis by simp
    qed
  qed
qed

subsection \<open>The backward scan on a part of the text\<close>

text \<open>
  The scan from offset \<open>n\<close> reads the bytes before \<open>n\<close> only. Behind a prefix that does
  not end in the escape byte it finds the same bracket, moved by the length of the prefix;
  when it finds none behind the prefix it goes on into the prefix.
\<close>

lemma backtrack_cong:
  "(\<forall>i < n. s ! i = s' ! i) \<Longrightarrow> backtrack s n = backtrack s' n"
proof (induction n)
  case 0
  show ?case by simp
next
  case (Suc n)
  then have ih: "backtrack s n = backtrack s' n" by simp
  from Suc.prems have a: "s ! n = s' ! n" by simp
  from Suc.prems have b: "0 < n \<Longrightarrow> s ! (n - 1) = s' ! (n - 1)" by simp
  from ih a b show ?case by (cases "0 < n") simp_all
qed

lemma backtrack_take: "n \<le> c \<Longrightarrow> backtrack (take c s) n = backtrack s n"
  by (rule backtrack_cong) simp

lemma backtrack_None_mono:
  "backtrack s n = None \<Longrightarrow> n' \<le> n \<Longrightarrow> backtrack s n' = None"
proof (induction n)
  case 0
  then show ?case by simp
next
  case (Suc n)
  show ?case
  proof (cases "n' = Suc n")
    case True
    with Suc.prems show ?thesis by simp
  next
    case False
    with Suc.prems have le: "n' \<le> n" by simp
    from Suc.prems(1) have "backtrack s n = None" by (simp split: if_splits)
    from Suc.IH [OF this le] show ?thesis .
  qed
qed

lemma backtrack_shift_Some:
  assumes "pre = [] \<or> last pre \<noteq> ESC"
  shows "backtrack rest n = Some p \<Longrightarrow> backtrack (pre @ rest) (length pre + n) = Some (length pre + p)"
proof (induction n)
  case 0
  then show ?case by simp
next
  case (Suc n)
  have a: "(pre @ rest) ! (length pre + n) = rest ! n" by (simp add: nth_append)
  have b: "(0 < length pre + n \<and> (pre @ rest) ! (length pre + n - 1) = ESC)
            \<longleftrightarrow> (0 < n \<and> rest ! (n - 1) = ESC)"
  proof (cases "0 < n")
    case True
    then have "length pre + n - 1 = length pre + (n - 1)" by simp
    then have "(pre @ rest) ! (length pre + n - 1) = rest ! (n - 1)"
      by (simp only: nth_append_length_plus)
    with True show ?thesis by simp
  next
    case False
    then have n: "n = 0" by simp
    show ?thesis
    proof (cases "pre = []")
      case True
      with n show ?thesis by simp
    next
      case False
      with assms have "last pre \<noteq> ESC" by simp
      moreover from False have "(pre @ rest) ! (length pre - 1) = last pre"
        by (simp add: nth_append last_conv_nth)
      ultimately show ?thesis using n by simp
    qed
  qed
  have unf: "backtrack (pre @ rest) (length pre + Suc n)
      = (if (pre @ rest) ! (length pre + n) = CHR ''['' then
          (if 0 < length pre + n \<and> (pre @ rest) ! (length pre + n - 1) = ESC
           then backtrack (pre @ rest) (length pre + n) else Some (length pre + n))
         else backtrack (pre @ rest) (length pre + n))"
    by simp
  show ?case
  proof (cases "rest ! n = CHR ''[''")
    case False
    with Suc.prems have "backtrack rest n = Some p" by simp
    from Suc.IH [OF this] False show ?thesis unfolding unf a by simp
  next
    case br: True
    show ?thesis
    proof (cases "0 < n \<and> rest ! (n - 1) = ESC")
      case True
      with br Suc.prems have "backtrack rest n = Some p" by simp
      from Suc.IH [OF this] br True show ?thesis unfolding unf a b by simp
    next
      case False
      with br Suc.prems have "p = n" by auto
      with br False show ?thesis unfolding unf a b by auto
    qed
  qed
qed

lemma backtrack_shift_None:
  "backtrack rest n = None \<Longrightarrow> backtrack (pre @ rest) (length pre + n) = backtrack (pre @ rest) (length pre)"
proof (induction n)
  case 0
  then show ?case by simp
next
  case (Suc n)
  from Suc.prems have r: "backtrack rest n = None" by (simp split: if_splits)
  from Suc.prems have c: "rest ! n = CHR ''['' \<longrightarrow> 0 < n \<and> rest ! (n - 1) = ESC"
    by (simp split: if_splits)
  have a: "(pre @ rest) ! (length pre + n) = rest ! n" by (simp add: nth_append)
  have b: "(pre @ rest) ! (length pre + n - 1) = rest ! (n - 1)" if "0 < n"
  proof -
    from that have "length pre + n - 1 = length pre + (n - 1)" by simp
    then show ?thesis by (simp only: nth_append_length_plus)
  qed
  have unf: "backtrack (pre @ rest) (length pre + Suc n)
      = (if (pre @ rest) ! (length pre + n) = CHR ''['' then
          (if 0 < length pre + n \<and> (pre @ rest) ! (length pre + n - 1) = ESC
           then backtrack (pre @ rest) (length pre + n) else Some (length pre + n))
         else backtrack (pre @ rest) (length pre + n))"
    by simp
  have "backtrack (pre @ rest) (length pre + Suc n) = backtrack (pre @ rest) (length pre + n)"
    unfolding unf using a b c by auto
  with Suc.IH [OF r] show ?case by simp
qed

subsection \<open>The replacement loop on a part of the text\<close>

lemma slice_append_shift: "slice (pre @ r) (length pre + a) (length pre + b) = slice r a b"
  by (simp add: slice_def)

lemma slice_append_prefix: "b \<le> length A \<Longrightarrow> slice (A @ B) a b = slice A a b"
  by (simp add: slice_def)

lemma replaceMatches_append:
  "replaceMatches T H config hov (xs @ ys) r =
     (case replaceMatches T H config hov xs r of
        Inl e \<Rightarrow> Inl e
      | Inr r' \<Rightarrow> replaceMatches T H config hov ys r')"
proof (induction T H config hov xs r rule: replaceMatches.induct)
  case (1 T H config hoveredURL result)
  show ?case by simp
next
  case (2 T H config hoveredURL matchStart matchEnd textStart textEnd urlStart urlEnd ms result)
  show ?case
  proof (cases "textStart \<le> textEnd \<and> textEnd \<le> length result
                \<and> urlStart \<le> urlEnd \<and> urlEnd \<le> length result")
    case False
    then show ?thesis by auto
  next
    case b: True
    show ?thesis
    proof (cases "looksLikeURL (linkURL T (slice result urlStart urlEnd))")
      case False
      with b "2.IH"(1) show ?thesis by (simp add: Let_def)
    next
      case u: True
      show ?thesis
      proof (cases "matchStart \<le> length result \<and> matchEnd \<le> length result")
        case False
        with b u show ?thesis by (auto simp add: Let_def)
      next
        case True
        with b u "2.IH"(2) show ?thesis by (simp add: Let_def)
      qed
    qed
  qed
qed

lemma replaceMatches_shift:
  "replaceMatches T H config hov (map (shiftMatch (length pre)) ms) (pre @ r) =
     (case replaceMatches T H config hov ms r of
        Inl e \<Rightarrow> Inl e
      | Inr r' \<Rightarrow> Inr (pre @ r'))"
proof (induction T H config hov ms r rule: replaceMatches.induct)
  case (1 T H config hoveredURL result)
  show ?case by simp
next
  case (2 T H config hoveredURL matchStart matchEnd textStart textEnd urlStart urlEnd ms result)
  have sh: "shiftMatch (length pre) (matchStart, matchEnd, textStart, textEnd, urlStart, urlEnd)
      = (length pre + matchStart, length pre + matchEnd, length pre + textStart,
         length pre + textEnd, length pre + urlStart, length pre + urlEnd)"
    by (simp add: shiftMatch_def)
  show ?case
  proof (cases "textStart \<le> textEnd \<and> textEnd \<le> length result
                \<and> urlStart \<le> urlEnd \<and> urlEnd \<le> length result")
    case False
    then show ?thesis by (auto simp add: sh)
  next
    case b: True
    show ?thesis
    proof (cases "looksLikeURL (linkURL T (slice result urlStart urlEnd))")
      case False
      with b "2.IH"(1) show ?thesis by (simp add: sh Let_def slice_append_shift)
    next
      case u: True
      show ?thesis
      proof (cases "matchStart \<le> length result \<and> matchEnd \<le> length result")
        case False
        with b u show ?thesis by (auto simp add: sh Let_def slice_append_shift)
      next
        case True
        with b u "2.IH"(2) show ?thesis by (simp add: sh Let_def slice_append_shift)
      qed
    qed
  qed
qed

lemma replaceMatches_prefix:
  "replaceMatches T H config hov ms A = Inr X
     \<Longrightarrow> replaceMatches T H config hov ms (A @ B) = Inr (X @ B)"
proof (induction T H config hov ms A rule: replaceMatches.induct)
  case (1 T H config hoveredURL result)
  then show ?case by simp
next
  case (2 T H config hoveredURL matchStart matchEnd textStart textEnd urlStart urlEnd ms result)
  show ?case
  proof (cases "textStart \<le> textEnd \<and> textEnd \<le> length result
                \<and> urlStart \<le> urlEnd \<and> urlEnd \<le> length result")
    case False
    then have "replaceMatches T H config hoveredURL
        ((matchStart, matchEnd, textStart, textEnd, urlStart, urlEnd) # ms) result
        = Inl SliceBoundsOutOfRange"
      by auto
    with "2.prems" show ?thesis by simp
  next
    case b: True
    show ?thesis
    proof (cases "looksLikeURL (linkURL T (slice result urlStart urlEnd))")
      case False
      with b "2.prems" have "replaceMatches T H config hoveredURL ms result = Inr X"
        by (simp add: Let_def)
      with b False "2.IH"(1) show ?thesis by (simp add: Let_def slice_append_prefix)
    next
      case u: True
      show ?thesis
      proof (cases "matchStart \<le> length result \<and> matchEnd \<le> length result")
        case False
        with b u have "replaceMatches T H config hoveredURL
            ((matchStart, matchEnd, textStart, textEnd, urlStart, urlEnd) # ms) result
            = Inl SliceBoundsOutOfRange"
          by (auto simp add: Let_def)
        with "2.prems" show ?thesis by simp
      next
        case True
        with b u "2.prems" have "replaceMatches T H config hoveredURL ms
            (take matchStart result
               @ hyperlinked H config hoveredURL (linkURL T (slice result urlStart urlEnd))
                   (slice result textStart textEnd)
               @ drop matchEnd result) = Inr X"
          by (simp add: Let_def)
        with b u True "2.IH"(2) show ?thesis by (simp add: Let_def slice_append_prefix)
      qed
    qed
  qed
qed

subsection \<open>The injector returns\<close>

text \<open>
  No slice of the replacement loop is out of range. A valid match lies within the text, and
  each one ends at or before the closing bracket of the next. A replacement at a later match
  keeps the bytes before its opening bracket and puts at least the link text and one byte
  more after them, so the text stays long enough for every match before it.
\<close>

lemma hyperlinked_length: "length text < length (hyperlinked H config hov url text)"
  by (simp add: hyperlinked_def Let_def defaultHyperlink_def colouredHyperlink_def
      split: option.splits)

definition wfMatch :: "linkMatch \<Rightarrow> bool" where
  "wfMatch m = (case m of (ms, me, ts, te, us, ue) \<Rightarrow>
     ts = ms + 1 \<and> ts \<le> te \<and> us = te + 2 \<and> us \<le> ue \<and> me = ue + 1)"

definition endsBefore :: "linkMatch \<Rightarrow> linkMatch \<Rightarrow> bool" where
  "endsBefore a b = (fst (snd a) \<le> fst (snd (snd (snd b))))"

lemma replaceMatches_total:
  "list_all wfMatch ms \<Longrightarrow> list_all (\<lambda>m. fst (snd m) \<le> length r) ms
     \<Longrightarrow> sorted_wrt (\<lambda>b a. endsBefore a b) ms
     \<Longrightarrow> \<exists>r'. replaceMatches T H config hov ms r = Inr r'"
proof (induction ms arbitrary: r)
  case Nil
  show ?case by simp
next
  case (Cons m ms)
  obtain matchStart matchEnd ts te us ue where m: "m = (matchStart, matchEnd, ts, te, us, ue)"
    by (cases m)
  from Cons.prems(1) m have wf: "ts = matchStart + 1" "ts \<le> te" "us = te + 2" "us \<le> ue"
    "matchEnd = ue + 1"
    by (simp_all add: wfMatch_def)
  from Cons.prems(2) m have e: "matchEnd \<le> length r" by simp
  from wf e have b: "ts \<le> te \<and> te \<le> length r \<and> us \<le> ue \<and> ue \<le> length r"
    "matchStart \<le> length r \<and> matchEnd \<le> length r"
    by simp_all
  from Cons.prems have wfs: "list_all wfMatch ms" and srt: "sorted_wrt (\<lambda>b a. endsBefore a b) ms"
    and ends: "list_all (\<lambda>m. fst (snd m) \<le> length r) ms"
    and hd: "\<forall>a \<in> set ms. fst (snd a) \<le> te"
    by (simp_all add: m endsBefore_def)
  show ?case
  proof (cases "looksLikeURL (linkURL T (slice r us ue))")
    case False
    from Cons.IH [OF wfs ends srt] obtain r' where "replaceMatches T H config hov ms r = Inr r'"
      by blast
    with b False m show ?thesis by (simp add: Let_def)
  next
    case True
    define r1 where "r1 = take matchStart r
        @ hyperlinked H config hov (linkURL T (slice r us ue)) (slice r ts te) @ drop matchEnd r"
    from b(1) have "te - ts \<le> length r - ts" by linarith
    then have "length (slice r ts te) = te - ts" by (simp add: slice_def)
    with hyperlinked_length [of "slice r ts te" H config hov "linkURL T (slice r us ue)"]
    have hl: "te - ts < length (hyperlinked H config hov (linkURL T (slice r us ue)) (slice r ts te))"
      by simp
    from b have "length r1 = matchStart
        + length (hyperlinked H config hov (linkURL T (slice r us ue)) (slice r ts te))
        + (length r - matchEnd)"
      by (simp add: r1_def)
    with hl wf(1) have "te \<le> length r1" by linarith
    with hd have "list_all (\<lambda>m. fst (snd m) \<le> length r1) ms"
      by (auto simp: list_all_iff)
    from Cons.IH [OF wfs this srt] obtain r' where "replaceMatches T H config hov ms r1 = Inr r'"
      by blast
    with b True m show ?thesis by (simp add: Let_def r1_def)
  qed
qed

lemma closeBracketMatches_at:
  "m \<in> set (closeBracketMatches s p) \<Longrightarrow> closeBracketAt s (fst m) = Some m"
proof (induction s p rule: closeBracketMatches.induct)
  case (1 s p)
  show ?case
  proof (cases "p < length s")
    case False
    with "1.prems" show ?thesis by (simp add: closeBracketMatches_stop)
  next
    case inr: True
    show ?thesis
    proof (cases "closeBracketAt s p")
      case None
      with inr "1.prems" have "m \<in> set (closeBracketMatches s (p + 1))"
        by (simp add: closeBracketMatches_miss)
      from "1.IH"(1) [OF inr None this] show ?thesis .
    next
      case (Some m')
      from inr "1.prems" Some have "m = m' \<or> m \<in> set (closeBracketMatches s (fst (snd m')))"
        by (auto simp add: closeBracketMatches_hit)
      then show ?thesis
      proof
        assume "m = m'"
        with "1.prems" closeBracketMatches_ge [OF "1.prems"] Some show ?thesis
          by (cases m') (auto dest: closeBracketAt_bounds)
      next
        assume "m \<in> set (closeBracketMatches s (fst (snd m')))"
        from "1.IH"(2) [OF inr Some this] show ?thesis .
      qed
    qed
  qed
qed

lemma closeBracketAt_other: "s ! p \<noteq> CHR '']'' \<Longrightarrow> closeBracketAt s p = None"
  unfolding closeBracketAt_def by (rule if_not_P) simp

lemma closeBracketMatches_bytes:
  assumes "(cb, me, us, ue) \<in> set (closeBracketMatches s p)"
  shows "s ! cb = CHR '']'' \<and> s ! ue = CHR '')''"
proof -
  from closeBracketMatches_at [OF assms] have at: "closeBracketAt s cb = Some (cb, me, us, ue)"
    by simp
  from closeBracketAt_Some [OF at] obtain m where
    m: "indexByteFrom (CHR '')'') s (cb + 3) = Some m" and eq: "ue = m"
    by auto
  have "s ! cb = CHR '']''"
  proof (rule ccontr)
    assume "s ! cb \<noteq> CHR '']''"
    then have "closeBracketAt s cb = None" by (rule closeBracketAt_other)
    with at show False by simp
  qed
  with indexByteFrom_nth [OF m] eq show ?thesis by simp
qed

lemma closeBracketMatches_sorted:
  "sorted_wrt (\<lambda>a b. fst (snd a) \<le> fst b) (closeBracketMatches s p)"
proof (induction s p rule: closeBracketMatches.induct)
  case (1 s p)
  show ?case
  proof (cases "p < length s")
    case False
    then show ?thesis by (simp add: closeBracketMatches_stop)
  next
    case inr: True
    show ?thesis
    proof (cases "closeBracketAt s p")
      case None
      from "1.IH"(1) [OF inr None] closeBracketMatches_miss [OF inr None] show ?thesis by simp
    next
      case (Some m)
      have "\<forall>x \<in> set (closeBracketMatches s (fst (snd m))). fst (snd m) \<le> fst x"
        by (auto dest: closeBracketMatches_ge)
      with "1.IH"(2) [OF inr Some] closeBracketMatches_hit [OF inr Some] show ?thesis by simp
    qed
  qed
qed

lemma map_filter_append: "List.map_filter f (xs @ ys) = List.map_filter f xs @ List.map_filter f ys"
  by (simp add: List.map_filter_def)

lemma map_filter_cong_set:
  "(\<forall>x \<in> set xs. f x = g x) \<Longrightarrow> List.map_filter f xs = List.map_filter g xs"
  by (induction xs) (auto simp add: List.map_filter_simps split: option.splits)

lemma map_filter_map_shift:
  "(\<forall>x \<in> set xs. f (g x) = map_option h (f' x))
     \<Longrightarrow> List.map_filter f (map g xs) = map h (List.map_filter f' xs)"
  by (induction xs) (auto simp add: List.map_filter_simps split: option.splits)

lemma sorted_wrt_map_filter:
  "sorted_wrt P xs
     \<Longrightarrow> (\<forall>x \<in> set xs. \<forall>y \<in> set xs. \<forall>a b. P x y \<longrightarrow> f x = Some a \<longrightarrow> f y = Some b \<longrightarrow> Q a b)
     \<Longrightarrow> sorted_wrt Q (List.map_filter f xs)"
proof (induction xs)
  case Nil
  show ?case by (simp add: List.map_filter_simps)
next
  case (Cons x xs)
  from Cons.prems have ih: "sorted_wrt Q (List.map_filter f xs)"
    by (intro Cons.IH) auto
  show ?case
  proof (cases "f x")
    case None
    with ih show ?thesis by (simp add: List.map_filter_simps)
  next
    case (Some a)
    have "\<forall>b \<in> set (List.map_filter f xs). Q a b"
    proof
      fix b assume "b \<in> set (List.map_filter f xs)"
      then obtain y where y: "y \<in> set xs" "f y = Some b" by (blast dest: map_filter_member)
      with Cons.prems(1) have "P x y" by simp
      with Cons.prems(2) y Some show "Q a b" by auto
    qed
    with ih Some show ?thesis by (simp add: List.map_filter_simps)
  qed
qed

lemma validMatch_Some:
  assumes "validMatch s (cb, me, us, ue) = Some vm"
  shows "\<exists>ob. backtrack s cb = Some ob \<and> ob < cb \<and> vm = (ob, me, ob + 1, cb, us, ue)"
  using assms by (auto split: option.splits dest: backtrack_lt)

lemma validMatches_wf: "list_all wfMatch (validMatches s)"
proof -
  have "wfMatch vm" if "vm \<in> set (validMatches s)" for vm
  proof -
    from validMatches_set [OF that] obtain cb me us ue ob where
      m: "(cb, me, us, ue) \<in> set (closeBracketMatches s 0)"
      and bt: "backtrack s cb = Some ob" and vm: "vm = (ob, me, ob + 1, cb, us, ue)"
      by blast
    from closeBracketMatches_bounds [OF m] backtrack_lt [OF bt] vm show ?thesis
      by (simp add: wfMatch_def)
  qed
  then show ?thesis by (simp add: list_all_iff)
qed

lemma validMatches_ends: "list_all (\<lambda>m. fst (snd m) \<le> length s) (validMatches s)"
proof -
  have "fst (snd vm) \<le> length s" if "vm \<in> set (validMatches s)" for vm
  proof -
    from validMatches_set [OF that] obtain cb me us ue ob where
      m: "(cb, me, us, ue) \<in> set (closeBracketMatches s 0)"
      and vm: "vm = (ob, me, ob + 1, cb, us, ue)"
      by blast
    from closeBracketMatches_bounds [OF m] vm show ?thesis by simp
  qed
  then show ?thesis by (simp add: list_all_iff)
qed

lemma validMatches_sorted: "sorted_wrt endsBefore (validMatches s)"
  unfolding validMatches_def
proof (rule sorted_wrt_map_filter [OF closeBracketMatches_sorted], intro ballI allI impI)
  fix x y :: "nat \<times> nat \<times> nat \<times> nat" and a b :: linkMatch
  assume le: "fst (snd x) \<le> fst y" and a: "validMatch s x = Some a" and b: "validMatch s y = Some b"
  obtain cb me us ue where x: "x = (cb, me, us, ue)" by (cases x)
  obtain cb' me' us' ue' where y: "y = (cb', me', us', ue')" by (cases y)
  from validMatch_Some [OF a [unfolded x]] validMatch_Some [OF b [unfolded y]] le x y
  show "endsBefore a b" by (auto simp: endsBefore_def)
qed

lemma addHyperlinks_total:
  "\<exists>r. addHyperlinks T H s originalMarkdown config hoveredURL = Inr r"
proof -
  have "list_all wfMatch (rev (validMatches s))"
    using validMatches_wf [of s] by (simp add: list_all_iff)
  moreover have "list_all (\<lambda>m. fst (snd m) \<le> length s) (rev (validMatches s))"
    using validMatches_ends [of s] by (simp add: list_all_iff)
  moreover have "sorted_wrt (\<lambda>b a. endsBefore a b) (rev (validMatches s))"
    using validMatches_sorted [of s] by (simp add: sorted_wrt_rev)
  ultimately show ?thesis unfolding addHyperlinks_def by (rule replaceMatches_total)
qed

subsection \<open>Splitting the text at an occurrence\<close>

lemma slice_take: "b \<le> n \<Longrightarrow> slice (take n s) a b = slice s a b"
  by (simp add: slice_def drop_take min_def)

text \<open>
  Let an occurrence of the pattern stand at \<open>[cb, me)\<close>, and let the backward scan of no
  later occurrence end before \<open>me\<close>. Then the valid matches of the text are those of the
  text before \<open>cb\<close>, the occurrence itself if its scan finds a bracket, and those of the
  text from \<open>me\<close> on, moved by \<open>me\<close>. The loop, which runs from the last match to the
  first, therefore works on the text after the occurrence as it would on that text alone.
\<close>

lemma validMatches_split:
  assumes m: "(cb, me, us, ue) \<in> set (closeBracketMatches s 0)"
    and no: "\<forall>m \<in> set (closeBracketMatches s 0).
               cb < fst m \<longrightarrow> (\<forall>p. backtrack s (fst m) = Some p \<longrightarrow> me \<le> p)"
  shows "validMatches s =
           validMatches (take cb s)
           @ (case validMatch s (cb, me, us, ue) of None \<Rightarrow> [] | Some vm \<Rightarrow> [vm])
           @ map (shiftMatch me) (validMatches (drop me s))"
proof -
  from closeBracketMatches_bounds [OF m] have
    bd: "us = cb + 2" "us < ue" "me = ue + 1" "ue < length s" by auto
  from closeBracketMatches_bytes [OF m] have cl: "s ! ue = CHR '')''" by simp
  define pre where "pre = take me s"
  define rest where "rest = drop me s"
  have s: "s = pre @ rest" by (simp add: pre_def rest_def)
  have lpre: "length pre = me" using bd by (simp add: pre_def)
  have "pre \<noteq> []" using lpre bd by auto
  moreover have "last pre = CHR '')''"
  proof -
    from \<open>pre \<noteq> []\<close> have "last pre = pre ! (length pre - 1)" by (rule last_conv_nth)
    also have "\<dots> = pre ! ue" using lpre bd by simp
    also have "\<dots> = s ! ue" using bd by (simp add: pre_def)
    finally show ?thesis using cl by simp
  qed
  ultimately have lastpre: "pre = [] \<or> last pre \<noteq> ESC" by (simp add: ESC_def)
  from closeBracketMatches_split [OF m] have
    sp: "closeBracketMatches s 0
          = closeBracketMatches (take cb s) 0 @ (cb, me, us, ue) # closeBracketMatches s me" .
  have "closeBracketMatches (pre @ rest) (length pre + 0)
          = map (shiftOcc (length pre)) (closeBracketMatches rest 0)"
    by (rule closeBracketMatches_shift)
  then have later: "closeBracketMatches s me = map (shiftOcc me) (closeBracketMatches rest 0)"
    using s lpre by simp
  \<comment> \<open>the occurrences before\<close>
  have p1: "List.map_filter (validMatch s) (closeBracketMatches (take cb s) 0)
              = validMatches (take cb s)"
    unfolding validMatches_def
  proof (rule map_filter_cong_set, rule ballI)
    fix x assume x: "x \<in> set (closeBracketMatches (take cb s) 0)"
    obtain a e u1 u2 where xx: "x = (a, e, u1, u2)" by (cases x)
    from closeBracketMatches_bounds [OF x [unfolded xx]] have "a \<le> cb" by simp
    then have "backtrack (take cb s) a = backtrack s a" by (rule backtrack_take)
    then show "validMatch s x = validMatch (take cb s) x" by (simp add: xx)
  qed
  \<comment> \<open>the occurrences after\<close>
  have p3: "List.map_filter (validMatch s) (map (shiftOcc me) (closeBracketMatches rest 0))
              = map (shiftMatch me) (validMatches rest)"
    unfolding validMatches_def
  proof (rule map_filter_map_shift, rule ballI)
    fix x assume x: "x \<in> set (closeBracketMatches rest 0)"
    obtain a e u1 u2 where xx: "x = (a, e, u1, u2)" by (cases x)
    have sh: "shiftOcc me x = (me + a, me + e, me + u1, me + u2)" by (simp add: xx shiftOcc_def)
    from x later have "shiftOcc me x \<in> set (closeBracketMatches s me)" by simp
    with sp have mem: "(me + a, me + e, me + u1, me + u2) \<in> set (closeBracketMatches s 0)"
      by (simp add: sh)
    show "validMatch s (shiftOcc me x) = map_option (shiftMatch me) (validMatch rest x)"
    proof (cases "backtrack rest a")
      case (Some p)
      from backtrack_shift_Some [OF lastpre Some] s lpre
      have "backtrack s (me + a) = Some (me + p)" by simp
      with Some show ?thesis by (simp add: xx shiftOcc_def shiftMatch_def)
    next
      case None
      from backtrack_shift_None [OF None, of pre] s lpre
      have eq: "backtrack s (me + a) = backtrack s me" by simp
      have "backtrack s me = None"
      proof (cases "backtrack s me")
        case None
        then show ?thesis .
      next
        case (Some q)
        from backtrack_lt [OF Some] have "q < me" .
        moreover from no mem eq Some bd have "me \<le> q" by fastforce
        ultimately show ?thesis by simp
      qed
      with eq None show ?thesis by (simp add: xx shiftOcc_def)
    qed
  qed
  have "validMatches s = List.map_filter (validMatch s)
      (closeBracketMatches (take cb s) 0 @ [(cb, me, us, ue)] @ closeBracketMatches s me)"
    unfolding validMatches_def using sp by simp
  also have "\<dots> = validMatches (take cb s)
           @ List.map_filter (validMatch s) [(cb, me, us, ue)]
           @ map (shiftMatch me) (validMatches rest)"
    unfolding map_filter_append p1 later p3 ..
  also have "List.map_filter (validMatch s) [(cb, me, us, ue)]
      = (case validMatch s (cb, me, us, ue) of None \<Rightarrow> [] | Some vm \<Rightarrow> [vm])"
    by (simp add: List.map_filter_simps split: option.splits)
  finally show ?thesis by (simp add: rest_def)
qed

lemma addHyperlinks_split:
  assumes m: "(cb, me, us, ue) \<in> set (closeBracketMatches s 0)"
    and no: "\<forall>m \<in> set (closeBracketMatches s 0).
               cb < fst m \<longrightarrow> (\<forall>p. backtrack s (fst m) = Some p \<longrightarrow> me \<le> p)"
  shows "\<exists>after. addHyperlinks T H (drop me s) originalMarkdown config hoveredURL = Inr after
     \<and> addHyperlinks T H s originalMarkdown config hoveredURL =
         (case replaceMatches T H config hoveredURL
                 (case validMatch s (cb, me, us, ue) of None \<Rightarrow> [] | Some vm \<Rightarrow> [vm])
                 (take me s @ after) of
            Inl e \<Rightarrow> Inl e
          | Inr r \<Rightarrow> replaceMatches T H config hoveredURL (rev (validMatches (take cb s))) r)"
proof -
  from closeBracketMatches_bounds [OF m] have
    bd: "us = cb + 2" "us < ue" "me = ue + 1" "ue < length s" by auto
  from addHyperlinks_total [of T H "drop me s" originalMarkdown config hoveredURL]
  obtain after where
    after: "addHyperlinks T H (drop me s) originalMarkdown config hoveredURL = Inr after"
    by blast
  define mid where
    "mid = (case validMatch s (cb, me, us, ue) of None \<Rightarrow> [] | Some vm \<Rightarrow> [vm])"
  have rmid: "rev mid = mid" by (simp add: mid_def split: option.splits)
  have lt: "length (take me s) = me" using bd by simp
  have "replaceMatches T H config hoveredURL
          (map (shiftMatch (length (take me s))) (rev (validMatches (drop me s))))
          (take me s @ drop me s)
        = (case replaceMatches T H config hoveredURL (rev (validMatches (drop me s))) (drop me s) of
             Inl e \<Rightarrow> Inl e | Inr r' \<Rightarrow> Inr (take me s @ r'))"
    by (rule replaceMatches_shift)
  with after have st1: "replaceMatches T H config hoveredURL
          (map (shiftMatch me) (rev (validMatches (drop me s)))) s = Inr (take me s @ after)"
    unfolding lt by (simp add: addHyperlinks_def)
  have "validMatches s = validMatches (take cb s) @ mid
          @ map (shiftMatch me) (validMatches (drop me s))"
    unfolding mid_def by (rule validMatches_split [OF m no])
  then have "rev (validMatches s) = map (shiftMatch me) (rev (validMatches (drop me s)))
          @ mid @ rev (validMatches (take cb s))"
    by (simp add: rev_map rmid)
  then have "addHyperlinks T H s originalMarkdown config hoveredURL =
         (case replaceMatches T H config hoveredURL mid (take me s @ after) of
            Inl e \<Rightarrow> Inl e
          | Inr r \<Rightarrow> replaceMatches T H config hoveredURL (rev (validMatches (take cb s))) r)"
    by (simp add: addHyperlinks_def replaceMatches_append st1)
  with after show ?thesis unfolding mid_def by blast
qed

subsection \<open>Occurrences that are not links\<close>

lemma map_filter_None: "(\<forall>x \<in> set xs. f x = None) \<Longrightarrow> List.map_filter f xs = []"
  by (induction xs) (simp_all add: List.map_filter_simps)

text \<open>
  The backward scan returns no bracket exactly when every \<open>[\<close> before its starting point
  follows an escape byte.
\<close>

lemma backtrack_None_iff:
  "backtrack s n = None \<longleftrightarrow> (\<forall>p < n. s ! p = CHR ''['' \<longrightarrow> 0 < p \<and> s ! (p - 1) = ESC)"
proof (induction n)
  case 0
  show ?case by simp
next
  case (Suc n)
  have "(\<forall>p < Suc n. s ! p = CHR ''['' \<longrightarrow> 0 < p \<and> s ! (p - 1) = ESC)
      \<longleftrightarrow> (\<forall>p < n. s ! p = CHR ''['' \<longrightarrow> 0 < p \<and> s ! (p - 1) = ESC)
          \<and> (s ! n = CHR ''['' \<longrightarrow> 0 < n \<and> s ! (n - 1) = ESC)"
    by (auto simp: less_Suc_eq)
  with Suc.IH show ?case by auto
qed

lemma validMatches_none_before:
  assumes "backtrack s cb = None"
  shows "validMatches (take cb s) = []"
  unfolding validMatches_def
proof (rule map_filter_None, rule ballI)
  fix x assume x: "x \<in> set (closeBracketMatches (take cb s) 0)"
  obtain a e u1 u2 where xx: "x = (a, e, u1, u2)" by (cases x)
  from closeBracketMatches_bounds [OF x [unfolded xx]] have le: "a \<le> cb" by simp
  then have "backtrack (take cb s) a = backtrack s a" by (rule backtrack_take)
  also from assms le have "\<dots> = None" by (rule backtrack_None_mono)
  finally show "validMatch (take cb s) x = None" by (simp add: xx)
qed

text \<open>
  C3 (as amended). For every styled text and every occurrence \<open>](...)\<close> at \<open>[cb, me)\<close> that
  the pattern finds: if the backward scan finds no unescaped \<open>[\<close> anywhere before the
  occurrence, or if the URL recovered from the parenthesised part (control sequences
  stripped, white space trimmed at both ends, then cut at the first space) has no \<open>://\<close>
  and no \<open>mailto:\<close> prefix, and if the backward scan of no later occurrence ends before
  \<open>me\<close>, then the occurrence is left as literal text. The injector returns the text before
  the occurrence as it renders that text on its own, then the bytes of the occurrence as
  they were, then the text after the occurrence as it renders that text on its own. When
  the scan found no unescaped \<open>[\<close>, the text before the occurrence is unchanged as well.
\<close>

theorem addHyperlinks_rejected_literal:
  assumes m: "(cb, me, us, ue) \<in> set (closeBracketMatches s 0)"
    and rej: "backtrack s cb = None \<or> \<not> looksLikeURL (linkURL T (slice s us ue))"
    and no: "\<forall>m \<in> set (closeBracketMatches s 0).
               cb < fst m \<longrightarrow> (\<forall>p. backtrack s (fst m) = Some p \<longrightarrow> me \<le> p)"
  shows "\<exists>before after.
           addHyperlinks T H (take cb s) originalMarkdown config hoveredURL = Inr before
         \<and> addHyperlinks T H (drop me s) originalMarkdown config hoveredURL = Inr after
         \<and> addHyperlinks T H s originalMarkdown config hoveredURL
             = Inr (before @ slice s cb me @ after)
         \<and> (backtrack s cb = None \<longrightarrow> before = take cb s)"
proof -
  from closeBracketMatches_bounds [OF m] have
    bd: "us = cb + 2" "us < ue" "me = ue + 1" "ue < length s" by auto
  from addHyperlinks_split [OF m no, of T H originalMarkdown config hoveredURL] obtain after where
    after: "addHyperlinks T H (drop me s) originalMarkdown config hoveredURL = Inr after"
    and sp: "addHyperlinks T H s originalMarkdown config hoveredURL =
         (case replaceMatches T H config hoveredURL
                 (case validMatch s (cb, me, us, ue) of None \<Rightarrow> [] | Some vm \<Rightarrow> [vm])
                 (take me s @ after) of
            Inl e \<Rightarrow> Inl e
          | Inr r \<Rightarrow> replaceMatches T H config hoveredURL (rev (validMatches (take cb s))) r)"
    by blast
  from addHyperlinks_total [of T H "take cb s" originalMarkdown config hoveredURL]
  obtain before where
    before: "addHyperlinks T H (take cb s) originalMarkdown config hoveredURL = Inr before"
    by blast
  \<comment> \<open>the occurrence itself changes nothing\<close>
  have mid: "replaceMatches T H config hoveredURL
               (case validMatch s (cb, me, us, ue) of None \<Rightarrow> [] | Some vm \<Rightarrow> [vm])
               (take me s @ after) = Inr (take me s @ after)"
  proof (cases "backtrack s cb")
    case None
    then show ?thesis by simp
  next
    case (Some ob)
    from backtrack_lt [OF Some] have ob: "ob < cb" .
    from Some rej have nu: "\<not> looksLikeURL (linkURL T (slice s us ue))" by simp
    have "slice (take me s @ after) us ue = slice (take me s) us ue"
      using bd by (intro slice_append_prefix) simp
    also have "\<dots> = slice s us ue" using bd by (intro slice_take) simp
    finally have sl: "slice (take me s @ after) us ue = slice s us ue" .
    from Some have vm: "validMatch s (cb, me, us, ue) = Some (ob, me, ob + 1, cb, us, ue)"
      by simp
    have b: "ob + 1 \<le> cb" "cb \<le> length (take me s @ after)" "us \<le> ue"
      "ue \<le> length (take me s @ after)"
      using ob bd by simp_all
    show ?thesis unfolding vm using b nu by (simp add: sl Let_def)
  qed
  \<comment> \<open>the occurrences before it work on the text before it\<close>
  from bd have "cb \<le> me" by simp
  then have tk: "take me s = take cb s @ slice s cb me" by (simp add: take_slice)
  from before have "replaceMatches T H config hoveredURL (rev (validMatches (take cb s))) (take cb s)
      = Inr before"
    by (simp add: addHyperlinks_def)
  then have "replaceMatches T H config hoveredURL (rev (validMatches (take cb s)))
      (take cb s @ (slice s cb me @ after)) = Inr (before @ (slice s cb me @ after))"
    by (rule replaceMatches_prefix)
  with sp mid tk have res: "addHyperlinks T H s originalMarkdown config hoveredURL
      = Inr (before @ slice s cb me @ after)"
    by simp
  have "backtrack s cb = None \<longrightarrow> before = take cb s"
  proof
    assume "backtrack s cb = None"
    from validMatches_none_before [OF this] before show "before = take cb s"
      by (simp add: addHyperlinks_def)
  qed
  then have "addHyperlinks T H (take cb s) originalMarkdown config hoveredURL = Inr before
         \<and> addHyperlinks T H (drop me s) originalMarkdown config hoveredURL = Inr after
         \<and> addHyperlinks T H s originalMarkdown config hoveredURL
             = Inr (before @ slice s cb me @ after)
         \<and> (backtrack s cb = None \<longrightarrow> before = take cb s)"
    using before after res by simp
  then show ?thesis by (intro exI)
qed


text \<open>
  The text \<open>ESC[1mx](http://z) [a](nourl) [b](http://y)\<close>. The scan from the first
  occurrence passes the \<open>[\<close> of the control sequence and finds no bracket; the second
  occurrence has the URL \<open>nourl\<close>; the third is a link and is converted.
\<close>

definition rejectedTwice :: string where
  "rejectedTwice = ESC # ''[1mx](http://z) [a](nourl) [b](http://y)''"

theorem addHyperlinks_rejected_literal_witness:
  "closeBracketMatches rejectedTwice 0 = [(5, 16, 7, 15), (19, 27, 21, 26), (30, 41, 32, 40)]
   \<and> backtrack rejectedTwice 5 = None
   \<and> addHyperlinks id (\<lambda>_. None) rejectedTwice [] None []
       = Inr (ESC # ''[1mx'' @ ''](http://z)''
              @ '' [a](nourl) '' @ [ESC] @ ''[4m'' @ [ESC] @ '']8;;http://y'' @ [ESC, BSL] @ ''b''
              @ [ESC] @ '']8;;'' @ [ESC, BSL] @ [ESC] @ ''[24m'')
   \<and> backtrack rejectedTwice 19 = Some 17
   \<and> \<not> looksLikeURL (linkURL id (slice rejectedTwice 21 26))
   \<and> addHyperlinks id (\<lambda>_. None) rejectedTwice [] None []
       = Inr (ESC # ''[1mx](http://z) [a'' @ ''](nourl)''
              @ '' '' @ [ESC] @ ''[4m'' @ [ESC] @ '']8;;http://y'' @ [ESC, BSL] @ ''b''
              @ [ESC] @ '']8;;'' @ [ESC, BSL] @ [ESC] @ ''[24m'')"
proof -
  let ?s = rejectedTwice
  have ms: "closeBracketMatches ?s 0 = [(5, 16, 7, 15), (19, 27, 21, 26), (30, 41, 32, 40)]"
    by code_simp
  have b1: "backtrack ?s 5 = None" by code_simp
  have b2: "backtrack ?s 19 = Some 17" by code_simp
  have b3: "backtrack ?s 30 = Some 28" by code_simp
  have u2: "\<not> looksLikeURL (linkURL id (slice ?s 21 26))" by code_simp
  \<comment> \<open>the first occurrence: no opening bracket\<close>
  have m1: "(5, 16, 7, 15) \<in> set (closeBracketMatches ?s 0)" unfolding ms by simp
  have r1: "backtrack ?s 5 = None \<or> \<not> looksLikeURL (linkURL id (slice ?s 7 15))"
    using b1 by simp
  have n1: "\<forall>m \<in> set (closeBracketMatches ?s 0).
              5 < fst m \<longrightarrow> (\<forall>p. backtrack ?s (fst m) = Some p \<longrightarrow> 16 \<le> p)"
    unfolding ms using b2 b3 by simp
  from addHyperlinks_rejected_literal [OF m1 r1 n1, of "\<lambda>_. None" "[]" None "[]"]
  obtain before after where
    a1: "addHyperlinks id (\<lambda>_. None) (drop 16 ?s) [] None [] = Inr after"
    and a2: "addHyperlinks id (\<lambda>_. None) ?s [] None [] = Inr (before @ slice ?s 5 16 @ after)"
    and a3: "backtrack ?s 5 = None \<longrightarrow> before = take 5 ?s"
    by (elim exE conjE) (rule that; assumption)
  have "addHyperlinks id (\<lambda>_. None) (drop 16 ?s) [] None []
      = Inr ('' [a](nourl) '' @ [ESC] @ ''[4m'' @ [ESC] @ '']8;;http://y'' @ [ESC, BSL] @ ''b''
              @ [ESC] @ '']8;;'' @ [ESC, BSL] @ [ESC] @ ''[24m'')"
    by code_simp
  with a1 have af: "after = '' [a](nourl) '' @ [ESC] @ ''[4m'' @ [ESC] @ '']8;;http://y''
      @ [ESC, BSL] @ ''b'' @ [ESC] @ '']8;;'' @ [ESC, BSL] @ [ESC] @ ''[24m''"
    by simp
  have tk: "take 5 ?s = ESC # ''[1mx''" by code_simp
  have sl: "slice ?s 5 16 = ''](http://z)''" by code_simp
  from a3 b1 tk have bf: "before = ESC # ''[1mx''" by simp
  have out1: "addHyperlinks id (\<lambda>_. None) ?s [] None []
       = Inr (ESC # ''[1mx'' @ ''](http://z)''
              @ '' [a](nourl) '' @ [ESC] @ ''[4m'' @ [ESC] @ '']8;;http://y'' @ [ESC, BSL] @ ''b''
              @ [ESC] @ '']8;;'' @ [ESC, BSL] @ [ESC] @ ''[24m'')"
    using a2 unfolding bf sl af by simp
  \<comment> \<open>the second occurrence: no URL\<close>
  have m2: "(19, 27, 21, 26) \<in> set (closeBracketMatches ?s 0)" unfolding ms by simp
  have r2: "backtrack ?s 19 = None \<or> \<not> looksLikeURL (linkURL id (slice ?s 21 26))"
    using u2 by simp
  have n2: "\<forall>m \<in> set (closeBracketMatches ?s 0).
              19 < fst m \<longrightarrow> (\<forall>p. backtrack ?s (fst m) = Some p \<longrightarrow> 27 \<le> p)"
    unfolding ms using b3 by simp
  from addHyperlinks_rejected_literal [OF m2 r2 n2, of "\<lambda>_. None" "[]" None "[]"]
  obtain before' after' where
    c0: "addHyperlinks id (\<lambda>_. None) (take 19 ?s) [] None [] = Inr before'"
    and c1: "addHyperlinks id (\<lambda>_. None) (drop 27 ?s) [] None [] = Inr after'"
    and c2: "addHyperlinks id (\<lambda>_. None) ?s [] None [] = Inr (before' @ slice ?s 19 27 @ after')"
    by (elim exE conjE) (rule that; assumption)
  have "addHyperlinks id (\<lambda>_. None) (take 19 ?s) [] None [] = Inr (ESC # ''[1mx](http://z) [a'')"
    by code_simp
  with c0 have bf': "before' = ESC # ''[1mx](http://z) [a''" by simp
  have "addHyperlinks id (\<lambda>_. None) (drop 27 ?s) [] None []
      = Inr ('' '' @ [ESC] @ ''[4m'' @ [ESC] @ '']8;;http://y'' @ [ESC, BSL] @ ''b''
              @ [ESC] @ '']8;;'' @ [ESC, BSL] @ [ESC] @ ''[24m'')"
    by code_simp
  with c1 have af': "after' = '' '' @ [ESC] @ ''[4m'' @ [ESC] @ '']8;;http://y''
      @ [ESC, BSL] @ ''b'' @ [ESC] @ '']8;;'' @ [ESC, BSL] @ [ESC] @ ''[24m''"
    by simp
  have sl': "slice ?s 19 27 = ''](nourl)''" by code_simp
  have out2: "addHyperlinks id (\<lambda>_. None) ?s [] None []
       = Inr (ESC # ''[1mx](http://z) [a'' @ ''](nourl)''
              @ '' '' @ [ESC] @ ''[4m'' @ [ESC] @ '']8;;http://y'' @ [ESC, BSL] @ ''b''
              @ [ESC] @ '']8;;'' @ [ESC, BSL] @ [ESC] @ ''[24m'')"
    using c2 unfolding bf' sl' af' by simp
  from ms b1 out1 b2 u2 out2 show ?thesis by (intro conjI)
qed


text \<open>
  C3 as stated fails in three ways. The backward scan does not stop at the start of the
  line: in the text \<open>[a\<close>, newline, \<open>b](http://x)\<close> the line of the occurrence has no \<open>[\<close>,
  the scan finds the one on the line before, and the occurrence becomes a link. The URL is
  trimmed before it is cut at the first space: in \<open>[a]( http://x)\<close> the stripped part cut
  at its first space is empty, yet the occurrence becomes a link to \<open>http://x\<close>. And where
  the backward scan of a later occurrence ends before the end of this one, the two matches
  overlap; the loop replaces the later one first and then reads the earlier one at the
  offsets it had in the text before that replacement. In \<open>[aaaaaaa](nourlx) b](http://y)\<close>
  the first occurrence has the URL \<open>nourlx\<close>; read after the replacement, the bytes at its
  offsets are \<open>ttp://\<close>, and it becomes a link.
\<close>

theorem addHyperlinks_literal_counterexample:
  "addHyperlinks id (\<lambda>_. None) (''[a'' @ [CHR 0x0A] @ ''b](http://x)'') [] None []
     = Inr ([ESC] @ ''[4m'' @ [ESC] @ '']8;;http://x'' @ [ESC, BSL] @ ''a'' @ [CHR 0x0A] @ ''b''
            @ [ESC] @ '']8;;'' @ [ESC, BSL] @ [ESC] @ ''[24m'')
   \<and> CHR ''['' \<notin> set ''b''
   \<and> addHyperlinks id (\<lambda>_. None) ''[a]( http://x)'' [] None []
     = Inr ([ESC] @ ''[4m'' @ [ESC] @ '']8;;http://x'' @ [ESC, BSL] @ ''a''
            @ [ESC] @ '']8;;'' @ [ESC, BSL] @ [ESC] @ ''[24m'')
   \<and> (case Index (stripANSI '' http://x'') '' '' of
         Some idx \<Rightarrow> take idx (stripANSI '' http://x'')
       | None \<Rightarrow> stripANSI '' http://x'') = []
   \<and> closeBracketMatches ''[aaaaaaa](nourlx) b](http://y)'' 0
        = [(8, 17, 10, 16), (19, 30, 21, 29)]
   \<and> \<not> looksLikeURL (linkURL id (slice ''[aaaaaaa](nourlx) b](http://y)'' 10 16))
   \<and> backtrack ''[aaaaaaa](nourlx) b](http://y)'' 19 = Some 0
   \<and> addHyperlinks id (\<lambda>_. None) ''[aaaaaaa](nourlx) b](http://y)'' [] None []
      = Inr ([ESC] @ ''[4m'' @ [ESC] @ '']8;;ttp://'' @ [ESC, BSL] @ ''[4m'' @ [ESC] @ '']8;''
             @ [ESC] @ '']8;;'' @ [ESC, BSL] @ [ESC] @ ''[24m''
             @ [ESC, BSL] @ ''aaaaaaa](nourlx) b'' @ [ESC] @ '']8;;'' @ [ESC, BSL] @ [ESC] @ ''[24m'')"
  by code_simp

subsection \<open>A link that opens at the first byte\<close>







section \<open>extractLinkPositions (main.go)\<close>

text \<open>\<open>hasPrefixAt s k lit\<close>: the literal \<open>lit\<close> stands in \<open>s\<close> at offset \<open>k\<close>.\<close>

definition hasPrefixAt :: "string \<Rightarrow> nat \<Rightarrow> string \<Rightarrow> bool" where
  "hasPrefixAt s k lit \<longleftrightarrow> take (length lit) (drop k s) = lit"

definition osc8Open :: string where
  "osc8Open = ESC # '']8;;''"

definition osc8End :: string where
  "osc8End = [ESC, BSL]"

text \<open>
  The group \<open>((?:[^\x1b]|\x1b\[[0-9;]*m)+)\<close> of \<open>hyperlinkPattern\<close>, from offset \<open>p\<close>:
  it takes a byte other than the escape byte, or a sequence \<open>ESC [\<close>, digits and
  semicolons, \<open>m\<close>, as long as there is one. At each offset at most one of the two applies,
  and the pattern goes on with an escape byte followed by \<open>]\<close>, which neither takes: the
  group can only end where this scan ends.
\<close>

definition sgrEnd :: "string \<Rightarrow> nat \<Rightarrow> nat option" where
  "sgrEnd s p =
     (if p + 1 < length s \<and> s ! p = ESC \<and> s ! (p + 1) = CHR ''[''
      then (let q = skipParams s (p + 2)
            in if q < length s \<and> s ! q = CHR ''m'' then Some (q + 1) else None)
      else None)"

lemma sgrEnd_gt: "sgrEnd s p = Some q \<Longrightarrow> p < q"
proof -
  assume h: "sgrEnd s p = Some q"
  have "p + 2 \<le> skipParams s (p + 2)" by (rule skipParams_ge)
  with h show ?thesis by (auto simp: sgrEnd_def Let_def split: if_splits)
qed

function linkTextEnd :: "string \<Rightarrow> nat \<Rightarrow> nat" where
  "linkTextEnd s p =
     (if p < length s then
        (if s ! p \<noteq> ESC then linkTextEnd s (p + 1)
         else (case sgrEnd s p of Some q \<Rightarrow> linkTextEnd s q | None \<Rightarrow> p))
      else p)"
  by pat_completeness auto
termination
  by (relation "measure (\<lambda>(s, p). length s - p)") (auto dest: sgrEnd_gt)

declare linkTextEnd.simps [simp del]

text \<open>
  A match of \<open>hyperlinkPattern\<close> that starts at offset \<open>k\<close>, as \<open>(match[1], match[2],
  match[3], match[4], match[5])\<close>: the end of the match, and the bounds of the URL group
  and of the text group.
\<close>

definition hyperlinkAt :: "string \<Rightarrow> nat \<Rightarrow> (nat \<times> nat \<times> nat \<times> nat \<times> nat) option" where
  "hyperlinkAt s k =
     (if hasPrefixAt s k osc8Open then
        (let urlStart = k + 5;
             urlEnd = urlStart + length (takeWhile (\<lambda>c. c \<noteq> ESC) (drop urlStart s))
         in if urlStart < urlEnd \<and> hasPrefixAt s urlEnd osc8End then
              (let textStart = urlEnd + 2; textEnd = linkTextEnd s textStart
               in if textStart < textEnd \<and> hasPrefixAt s textEnd (osc8Open @ osc8End)
                  then Some (textEnd + 7, urlStart, urlEnd, textStart, textEnd)
                  else None)
            else None)
      else None)"

lemma hyperlinkAt_end: "hyperlinkAt s k = Some (e, r) \<Longrightarrow> k < e"
  by (auto simp: hyperlinkAt_def Let_def split: if_splits)

function hyperlinkMatches :: "string \<Rightarrow> nat \<Rightarrow> (nat \<times> nat \<times> nat \<times> nat \<times> nat) list" where
  "hyperlinkMatches s p =
     (if p < length s then
        (case hyperlinkAt s p of
           None \<Rightarrow> hyperlinkMatches s (p + 1)
         | Some m \<Rightarrow> m # hyperlinkMatches s (fst m))
      else [])"
  by pat_completeness auto
termination
proof (relation "measure (\<lambda>(s, p). length s - p)")
  show "wf (measure (\<lambda>(s, p). length s - p))" by simp
next
  fix s :: string and p :: nat
  assume "p < length s"
  then show "((s, p + 1), (s, p)) \<in> measure (\<lambda>(s, p). length s - p)" by simp
next
  fix s :: string and p :: nat and m :: "nat \<times> nat \<times> nat \<times> nat \<times> nat"
  assume "p < length s" and "hyperlinkAt s p = Some m"
  then have "p < fst m" by (cases m) (auto dest: hyperlinkAt_end)
  with \<open>p < length s\<close>
  show "((s, fst m), (s, p)) \<in> measure (\<lambda>(s, p). length s - p)" by simp
qed

declare hyperlinkMatches.simps [simp del]

subsection \<open>stripAllEscapeSequences\<close>

text \<open>
  \<open>osc8Pattern.ReplaceAllString(s, "")\<close> for \<open>\x1b\]8;;[^\x1b]*\x1b\\\<close>: \<open>removeOSC8 s p\<close>
  is the text from offset \<open>p\<close> on without the matches.
\<close>

definition osc8At :: "string \<Rightarrow> nat \<Rightarrow> nat option" where
  "osc8At s k =
     (if hasPrefixAt s k osc8Open then
        (let e = k + 5 + length (takeWhile (\<lambda>c. c \<noteq> ESC) (drop (k + 5) s))
         in if hasPrefixAt s e osc8End then Some (e + 2) else None)
      else None)"

lemma osc8At_gt: "osc8At s k = Some e \<Longrightarrow> k < e"
  by (auto simp: osc8At_def Let_def split: if_splits)

function removeOSC8 :: "string \<Rightarrow> nat \<Rightarrow> string" where
  "removeOSC8 s p =
     (if p < length s then
        (case osc8At s p of
           None \<Rightarrow> s ! p # removeOSC8 s (p + 1)
         | Some e \<Rightarrow> removeOSC8 s e)
      else [])"
  by pat_completeness auto
termination
  by (relation "measure (\<lambda>(s, p). length s - p)") (auto dest: osc8At_gt)

declare removeOSC8.simps [simp del]

text \<open>\<open>ansiPattern.ReplaceAllString(s, "")\<close> for \<open>\x1b\[[0-9;]*m\<close>.\<close>

function removeSGR :: "string \<Rightarrow> nat \<Rightarrow> string" where
  "removeSGR s p =
     (if p < length s then
        (case sgrEnd s p of
           None \<Rightarrow> s ! p # removeSGR s (p + 1)
         | Some e \<Rightarrow> removeSGR s e)
      else [])"
  by pat_completeness auto
termination
  by (relation "measure (\<lambda>(s, p). length s - p)") (auto dest: sgrEnd_gt)

declare removeSGR.simps [simp del]

definition stripAllEscapeSequences :: "string \<Rightarrow> string" where
  "stripAllEscapeSequences s = removeSGR (removeOSC8 s 0) 0"

subsection \<open>The link table\<close>

record linkPosition =
  url :: string
  linkText :: string
  x :: nat
  y :: nat
  width :: nat

text \<open>
  The body of the inner loop, for one match on line \<open>y\<close>. The field \<open>text\<close> of
  \<open>linkPosition\<close> is \<open>linkText\<close> here. The debug file the function writes is left out.
\<close>

definition linkOf :: "nat \<Rightarrow> string \<Rightarrow> nat \<times> nat \<times> nat \<times> nat \<times> nat \<Rightarrow> linkPosition" where
  "linkOf lineNo line m =
     (case m of (matchEnd, urlStart, urlEnd, textStart, textEnd) \<Rightarrow>
        (let visibleText = stripANSI (slice line textStart textEnd);
             beforeLink = take textStart line;
             visibleBefore = stripAllEscapeSequences beforeLink
         in \<lparr>url = slice line urlStart urlEnd, linkText = visibleText,
              x = length visibleBefore, y = lineNo, width = length visibleText\<rparr>))"

fun linksOfLines :: "nat \<Rightarrow> string list \<Rightarrow> linkPosition list" where
  "linksOfLines lineNo [] = []"
| "linksOfLines lineNo (line # rest) =
     map (linkOf lineNo line) (hyperlinkMatches line 0) @ linksOfLines (lineNo + 1) rest"

definition extractLinkPositions :: "string \<Rightarrow> linkPosition list" where
  "extractLinkPositions content = linksOfLines 0 (SplitLines content)"

text \<open>The two bytes of U+00E9.\<close>

definition eacute :: string where
  "eacute = [CHR 0xC3, CHR 0xA9]"

text \<open>
  C7. The claim counts in codepoints; the code takes \<open>len\<close> of the two stripped strings,
  which counts bytes. On a line that is the two bytes of U+00E9, a space, and a link to
  \<open>http://x\<close> whose text is U+00E9 again, the recorded \<open>x\<close> is 3 and the recorded width
  is 2, where the text before the link has 2 codepoints and the link text has 1.
\<close>

theorem extractLinkPositions_counts_bytes:
  "extractLinkPositions (eacute @ '' '' @ defaultHyperlink ''http://x'' eacute)
     = [\<lparr>url = ''http://x'', linkText = eacute, x = 3, y = 0, width = 2\<rparr>]
   \<and> RuneCountInString (eacute @ '' '') = 2
   \<and> RuneCountInString eacute = 1"
  by code_simp

section \<open>truncateVisibleChars (main.go)\<close>

text \<open>
  \<open>EncodeRune\<close> is \<open>utf8.AppendRune\<close>, the bytes that \<open>WriteRune(r)\<close> writes and
  that \<open>string(r)\<close> holds: a surrogate or a value above U+10FFFF is written as U+FFFD.
\<close>

definition EncodeRune :: "nat \<Rightarrow> string" where
  "EncodeRune r =
     (if r < 0x80 then [char_of r]
      else if r < 0x800 then [char_of (0xC0 + r div 64), char_of (0x80 + r mod 64)]
      else if r > 0x10FFFF \<or> (0xD800 \<le> r \<and> r \<le> 0xDFFF)
        then [CHR 0xEF, CHR 0xBF, CHR 0xBD]
      else if r < 0x10000
        then [char_of (0xE0 + r div 4096), char_of (0x80 + (r div 64) mod 64),
              char_of (0x80 + r mod 64)]
      else [char_of (0xF0 + r div 262144), char_of (0x80 + (r div 4096) mod 64),
            char_of (0x80 + (r div 64) mod 64), char_of (0x80 + r mod 64)])"

text \<open>
  \<open>decodeRuneInBytes\<close>: the first rune of \<open>b\<close> and its size. For a byte outside ASCII
  the size is not the number of bytes read but \<open>len(string(r))\<close>, the length of the
  rune's own encoding: 3 for the U+FFFD that a malformed byte decodes to.
\<close>

definition decodeRuneInBytes :: "string \<Rightarrow> nat \<times> nat" where
  "decodeRuneInBytes b =
     (if length b = 0 then (0, 0)
      else if (of_char (b ! 0) :: nat) < 0x80 then (of_char (b ! 0), 1)
      else (let r = fst (DecodeRune b) in (r, length (EncodeRune r))))"

lemma EncodeRune_nonempty: "EncodeRune r \<noteq> []"
  by (simp add: EncodeRune_def)

lemma decodeRuneInBytes_size: "b \<noteq> [] \<Longrightarrow> 0 < snd (decodeRuneInBytes b)"
  by (simp add: decodeRuneInBytes_def Let_def EncodeRune_nonempty)

text \<open>
  The two inner loops of the escape branch. In the CSI branch the loop runs to the first
  letter, and one more step takes the letter; in the OSC branch the loop runs while
  \<open>i < len(bytes)-1\<close> and leaves after the terminator \<open>ESC \\<close>.
\<close>

function skipToLetter :: "string \<Rightarrow> nat \<Rightarrow> nat" where
  "skipToLetter bytes i =
     (if i < length bytes \<and> \<not> isLetter (bytes ! i) then skipToLetter bytes (i + 1) else i)"
  by pat_completeness auto
termination
  by (relation "measure (\<lambda>(b, i). length b - i)") auto

declare skipToLetter.simps [simp del]

definition csiFinal :: "string \<Rightarrow> nat \<Rightarrow> nat" where
  "csiFinal bytes i = (let j = skipToLetter bytes i in if j < length bytes then j + 1 else j)"

function oscSkip :: "string \<Rightarrow> nat \<Rightarrow> nat" where
  "oscSkip bytes i =
     (if i + 1 < length bytes then
        (if bytes ! i = ESC \<and> i + 1 < length bytes \<and> bytes ! (i + 1) = BSL then i + 2
         else oscSkip bytes (i + 1))
      else i)"
  by pat_completeness auto
termination
  by (relation "measure (\<lambda>(b, i). length b - i)") auto

declare oscSkip.simps [simp del]

lemma skipToLetter_step:
  "i < length b \<Longrightarrow> \<not> isLetter (b ! i) \<Longrightarrow> skipToLetter b i = skipToLetter b (i + 1)"
  by (subst skipToLetter.simps) simp

lemma skipToLetter_stop:
  "\<not> (i < length b \<and> \<not> isLetter (b ! i)) \<Longrightarrow> skipToLetter b i = i"
  by (subst skipToLetter.simps) auto

lemma skipToLetter_ge: "i \<le> skipToLetter b i"
proof (induction b i rule: skipToLetter.induct)
  case (1 b i)
  show ?case
  proof (cases "i < length b \<and> \<not> isLetter (b ! i)")
    case True
    with "1" have "i + 1 \<le> skipToLetter b (i + 1)" by simp
    with True show ?thesis by (simp add: skipToLetter_step)
  next
    case False
    then have "skipToLetter b i = i" by (rule skipToLetter_stop)
    then show ?thesis by simp
  qed
qed

lemma csiFinal_ge: "i \<le> csiFinal b i"
  using skipToLetter_ge [of i b] by (simp add: csiFinal_def Let_def)

lemma oscSkip_stop: "\<not> i + 1 < length b \<Longrightarrow> oscSkip b i = i"
  by (subst oscSkip.simps) simp

lemma oscSkip_found:
  "i + 1 < length b \<Longrightarrow> b ! i = ESC \<Longrightarrow> b ! (i + 1) = BSL \<Longrightarrow> oscSkip b i = i + 2"
  by (subst oscSkip.simps) simp

lemma oscSkip_step:
  "i + 1 < length b \<Longrightarrow> \<not> (b ! i = ESC \<and> b ! (i + 1) = BSL)
     \<Longrightarrow> oscSkip b i = oscSkip b (i + 1)"
  by (subst oscSkip.simps) auto

lemma oscSkip_ge: "i \<le> oscSkip b i"
proof (induction b i rule: oscSkip.induct)
  case (1 b i)
  show ?case
  proof (cases "i + 1 < length b")
    case False
    then show ?thesis by (simp add: oscSkip_stop)
  next
    case inr: True
    show ?thesis
    proof (cases "b ! i = ESC \<and> b ! (i + 1) = BSL")
      case True
      with inr show ?thesis by (simp add: oscSkip_found)
    next
      case False
      with inr "1" have "i + 1 \<le> oscSkip b (i + 1)" by blast
      with inr False show ?thesis by (simp add: oscSkip_step)
    qed
  qed
qed

lemma csiFinal_measure: "i < length b \<Longrightarrow> length b - csiFinal b (Suc (Suc i)) < length b - i"
  using csiFinal_ge [of "Suc (Suc i)" b] by linarith

lemma oscSkip2_measure: "i < length b \<Longrightarrow> length b - oscSkip b (Suc (Suc i)) < length b - i"
  using oscSkip_ge [of "Suc (Suc i)" b] by linarith

lemma decodeRuneInBytes_measure:
  "i < length b \<Longrightarrow> length b - (i + snd (decodeRuneInBytes (drop i b))) < length b - i"
proof -
  assume i: "i < length b"
  then have "drop i b \<noteq> []" by simp
  then have "0 < snd (decodeRuneInBytes (drop i b))" by (rule decodeRuneInBytes_size)
  with i show ?thesis by linarith
qed

text \<open>
  The loop of \<open>truncateVisibleChars\<close>: the state is \<open>i\<close>, \<open>visibleCount\<close> and the
  builder \<open>result\<close>. The function returns the builder; the model returns the counter
  with it.
\<close>

function truncLoop :: "string \<Rightarrow> int \<Rightarrow> nat \<Rightarrow> nat \<Rightarrow> string \<Rightarrow> string \<times> nat" where
  "truncLoop bytes n i visibleCount result =
     (if i < length bytes \<and> int visibleCount < n then
        (if bytes ! i = ESC then
           (if i + 1 < length bytes \<and> bytes ! (i + 1) = CHR ''['' then
              truncLoop bytes n (csiFinal bytes (i + 2)) visibleCount
                (result @ slice bytes i (csiFinal bytes (i + 2)))
            else if i + 1 < length bytes \<and> bytes ! (i + 1) = CHR '']'' then
              truncLoop bytes n (oscSkip bytes (i + 2)) visibleCount
                (result @ slice bytes i (oscSkip bytes (i + 2)))
            else truncLoop bytes n (i + 1) visibleCount (result @ [bytes ! i]))
         else
           truncLoop bytes n (i + snd (decodeRuneInBytes (drop i bytes))) (visibleCount + 1)
             (result @ EncodeRune (fst (decodeRuneInBytes (drop i bytes)))))
      else (result, visibleCount))"
  by pat_completeness auto
termination
  by (relation "measure (\<lambda>(b, n, i, v, r). length b - i)")
     (auto simp: csiFinal_measure oscSkip2_measure decodeRuneInBytes_measure)

declare truncLoop.simps [simp del]

definition truncateVisibleChars :: "string \<Rightarrow> int \<Rightarrow> string" where
  "truncateVisibleChars s n = fst (truncLoop s n 0 0 [])"

section \<open>Properties of truncateVisibleChars\<close>

subsection \<open>Decoding and encoding a well-formed character\<close>

text \<open>
  The arithmetic of the 2-, 3- and 4-byte forms: the code point that the decoder
  assembles from the payload bits is in the range of its form, and the encoder splits it
  into the same bytes.
\<close>

lemma div_block: "t < N \<Longrightarrow> (a * N + t) div N = (a::nat)"
  by simp

lemma mod_block: "t < N \<Longrightarrow> (a * N + t) mod N = (t::nat)"
  by simp

lemma mod_offset: "t < N \<Longrightarrow> p = k * N + t \<Longrightarrow> p mod N = (t::nat)"
  by simp

lemma enc2:
  fixes p0 p1 :: nat
  assumes "194 \<le> p0" "p0 \<le> 223" "128 \<le> p1" "p1 \<le> 191"
  defines "r \<equiv> (p0 mod 32) * 64 + p1 mod 64"
  shows "128 \<le> r" "r < 2048" "192 + r div 64 = p0" "128 + r mod 64 = p1"
proof -
  define a where "a = p0 - 192"
  define b where "b = p1 - 128"
  have p0: "p0 = 192 + a" and a: "2 \<le> a" "a < 32" using assms by (simp_all add: a_def)
  have p1: "p1 = 128 + b" and b: "b < 64" using assms by (simp_all add: b_def)
  have m0: "p0 mod 32 = a" by (rule mod_offset [OF a(2), of _ 6]) (simp add: p0)
  have m1: "p1 mod 64 = b" by (rule mod_offset [OF b, of _ 2]) (simp add: p1)
  have r: "r = a * 64 + b" by (simp add: r_def m0 m1)
  show "128 \<le> r" using a unfolding r by linarith
  show "r < 2048" using a b unfolding r by linarith
  show "192 + r div 64 = p0" unfolding r p0 using div_block [OF b, of a] by simp
  show "128 + r mod 64 = p1" unfolding r p1 using mod_block [OF b, of a] by simp
qed


lemma enc3:
  fixes p0 p1 p2 :: nat
  assumes "224 \<le> p0" "p0 \<le> 239" "acceptLo p0 \<le> p1" "p1 \<le> acceptHi p0"
    "128 \<le> p2" "p2 \<le> 191"
  defines "r \<equiv> (p0 mod 16) * 4096 + (p1 mod 64) * 64 + p2 mod 64"
  shows "2048 \<le> r" "r < 65536" "\<not> (55296 \<le> r \<and> r \<le> 57343)"
    "224 + r div 4096 = p0" "128 + (r div 64) mod 64 = p1" "128 + r mod 64 = p2"
proof -
  define a where "a = p0 - 224"
  define b where "b = p1 - 128"
  define c where "c = p2 - 128"
  have lo: "128 \<le> p1" using assms(3) by (simp add: acceptLo_def split: if_splits)
  have hi: "p1 \<le> 191" using assms(4) by (simp add: acceptHi_def split: if_splits)
  have p0: "p0 = 224 + a" and a: "a < 16" using assms(1,2) by (simp_all add: a_def)
  have p1: "p1 = 128 + b" and b: "b < 64" using lo hi by (simp_all add: b_def)
  have p2: "p2 = 128 + c" and c: "c < 64" using assms(5,6) by (simp_all add: c_def)
  have b0: "32 \<le> b" if "a = 0"
  proof -
    from that have "p0 = 224" by (simp add: p0)
    with assms(3) have "160 \<le> p1" by (simp add: acceptLo_def)
    then show ?thesis by (simp add: b_def)
  qed
  have b13: "b < 32" if "a = 13"
  proof -
    from that have "p0 = 237" by (simp add: p0)
    with assms(4) have "p1 \<le> 159" by (simp add: acceptHi_def)
    then show ?thesis using lo by (simp add: b_def)
  qed
  have m0: "p0 mod 16 = a" by (rule mod_offset [OF a, of _ 14]) (simp add: p0)
  have m1: "p1 mod 64 = b" by (rule mod_offset [OF b, of _ 2]) (simp add: p1)
  have m2: "p2 mod 64 = c" by (rule mod_offset [OF c, of _ 2]) (simp add: p2)
  have r: "r = a * 4096 + (b * 64 + c)" by (simp add: r_def m0 m1 m2)
  have r': "r = (a * 64 + b) * 64 + c" by (simp add: r)
  have bc: "b * 64 + c < 4096" using b c by linarith
  show "2048 \<le> r"
  proof (cases "a = 0")
    case True
    from b0 [OF True] show ?thesis unfolding r by linarith
  next
    case False
    then have "1 \<le> a" by simp
    then show ?thesis unfolding r by linarith
  qed
  show "r < 65536" using a bc unfolding r by linarith
  show "\<not> (55296 \<le> r \<and> r \<le> 57343)"
  proof (cases "a < 13")
    case True
    then have "a \<le> 12" by simp
    then have "r < 53248" using bc unfolding r by linarith
    then show ?thesis by simp
  next
    case False
    show ?thesis
    proof (cases "a = 13")
      case True
      from b13 [OF True] True c have "r < 55296" unfolding r by linarith
      then show ?thesis by simp
    next
      case False
      with \<open>\<not> a < 13\<close> have "14 \<le> a" by simp
      then have "57344 \<le> r" unfolding r by linarith
      then show ?thesis by simp
    qed
  qed
  show "224 + r div 4096 = p0" unfolding r p0 using div_block [OF bc, of a] by simp
  have "r div 64 = a * 64 + b" unfolding r' using div_block [OF c, of "a * 64 + b"] by simp
  then show "128 + (r div 64) mod 64 = p1" unfolding p1 using mod_block [OF b, of a] by simp
  show "128 + r mod 64 = p2" unfolding r' p2 using mod_block [OF c, of "a * 64 + b"] by simp
qed

lemma enc4:
  fixes p0 p1 p2 p3 :: nat
  assumes "240 \<le> p0" "p0 \<le> 244" "acceptLo p0 \<le> p1" "p1 \<le> acceptHi p0"
    "128 \<le> p2" "p2 \<le> 191" "128 \<le> p3" "p3 \<le> 191"
  defines "r \<equiv> (p0 mod 8) * 262144 + (p1 mod 64) * 4096 + (p2 mod 64) * 64 + p3 mod 64"
  shows "65536 \<le> r" "r \<le> 1114111"
    "240 + r div 262144 = p0" "128 + (r div 4096) mod 64 = p1"
    "128 + (r div 64) mod 64 = p2" "128 + r mod 64 = p3"
proof -
  define a where "a = p0 - 240"
  define b where "b = p1 - 128"
  define c where "c = p2 - 128"
  define d where "d = p3 - 128"
  have lo: "128 \<le> p1" using assms(3) by (simp add: acceptLo_def split: if_splits)
  have hi: "p1 \<le> 191" using assms(4) by (simp add: acceptHi_def split: if_splits)
  have p0: "p0 = 240 + a" and a: "a \<le> 4" using assms(1,2) by (simp_all add: a_def)
  have a8: "a < 8" using a by simp
  have p1: "p1 = 128 + b" and b: "b < 64" using lo hi by (simp_all add: b_def)
  have p2: "p2 = 128 + c" and c: "c < 64" using assms(5,6) by (simp_all add: c_def)
  have p3: "p3 = 128 + d" and d: "d < 64" using assms(7,8) by (simp_all add: d_def)
  have b0: "16 \<le> b" if "a = 0"
  proof -
    from that have "p0 = 240" by (simp add: p0)
    with assms(3) have "144 \<le> p1" by (simp add: acceptLo_def)
    then show ?thesis by (simp add: b_def)
  qed
  have b4: "b < 16" if "a = 4"
  proof -
    from that have "p0 = 244" by (simp add: p0)
    with assms(4) have "p1 \<le> 143" by (simp add: acceptHi_def)
    then show ?thesis using lo by (simp add: b_def)
  qed
  have m0: "p0 mod 8 = a" by (rule mod_offset [OF a8, of _ 30]) (simp add: p0)
  have m1: "p1 mod 64 = b" by (rule mod_offset [OF b, of _ 2]) (simp add: p1)
  have m2: "p2 mod 64 = c" by (rule mod_offset [OF c, of _ 2]) (simp add: p2)
  have m3: "p3 mod 64 = d" by (rule mod_offset [OF d, of _ 2]) (simp add: p3)
  have r: "r = a * 262144 + (b * 4096 + c * 64 + d)" by (simp add: r_def m0 m1 m2 m3)
  have r1: "r = (a * 64 + b) * 4096 + (c * 64 + d)" by (simp add: r)
  have r2: "r = ((a * 64 + b) * 64 + c) * 64 + d" by (simp add: r)
  have cd: "c * 64 + d < 4096" using c d by linarith
  have bcd: "b * 4096 + c * 64 + d < 262144" using b c d by linarith
  show "65536 \<le> r"
  proof (cases "a = 0")
    case True
    from b0 [OF True] show ?thesis unfolding r by linarith
  next
    case False
    then have "1 \<le> a" by simp
    then show ?thesis unfolding r by linarith
  qed
  show "r \<le> 1114111"
  proof (cases "a = 4")
    case True
    from b4 [OF True] True c d show ?thesis unfolding r by linarith
  next
    case False
    with a have "a \<le> 3" by simp
    with bcd show ?thesis unfolding r by linarith
  qed
  show "240 + r div 262144 = p0" unfolding r p0 using div_block [OF bcd, of a] by simp
  have "r div 4096 = a * 64 + b" unfolding r1 using div_block [OF cd, of "a * 64 + b"] by simp
  then show "128 + (r div 4096) mod 64 = p1" unfolding p1 using mod_block [OF b, of a] by simp
  have "r div 64 = (a * 64 + b) * 64 + c"
    unfolding r2 using div_block [OF d, of "(a * 64 + b) * 64 + c"] by simp
  then show "128 + (r div 64) mod 64 = p2"
    unfolding p2 using mod_block [OF c, of "a * 64 + b"] by simp
  show "128 + r mod 64 = p3"
    unfolding r2 p3 using mod_block [OF d, of "(a * 64 + b) * 64 + c"] by simp
qed

text \<open>
  A decoding other than the error \<open>(U+FFFD, 1)\<close> reads a well-formed encoding, and
  encoding the rune gives the bytes that were read.
\<close>

lemma DecodeRune_roundtrip:
  assumes "DecodeRune s = (r, w)" and "(r, w) \<noteq> (RuneError, 1)" and "s \<noteq> []"
  shows "EncodeRune r = take w s \<and> 0 < w \<and> w \<le> length s"
proof -
  from assms(3) obtain c0 cs where s: "s = c0 # cs" by (cases s) auto
  define p0 where "p0 = (of_char c0 :: nat)"
  have c0: "char_of p0 = c0" by (simp add: p0_def)
  consider (ascii) "p0 < 128" | (two) "194 \<le> p0" "p0 \<le> 223"
    | (three) "224 \<le> p0" "p0 \<le> 239" | (four) "240 \<le> p0" "p0 \<le> 244"
    | (bad) "128 \<le> p0" "p0 < 194" | (bad2) "244 < p0"
    by linarith
  then show ?thesis
  proof cases
    case ascii
    with assms(1) have "r = p0" "w = 1" by (simp_all add: s p0_def Let_def)
    with ascii c0 show ?thesis by (simp add: EncodeRune_def s)
  next
    case bad
    with assms(1) have "(r, w) = (RuneError, 1)" by (simp add: s p0_def Let_def)
    with assms(2) show ?thesis by simp
  next
    case bad2
    with assms(1) have "(r, w) = (RuneError, 1)" by (simp add: s p0_def Let_def)
    with assms(2) show ?thesis by simp
  next
    case two
    then have d: "DecodeRune s =
        (case cs of
           c1 # _ \<Rightarrow>
             if secondOK p0 c1 then ((p0 mod 32) * 64 + of_char c1 mod 64, 2)
             else (RuneError, 1)
         | _ \<Rightarrow> (RuneError, 1))"
      unfolding p0_def by (simp add: s Let_def)
    show ?thesis
    proof (cases cs)
      case Nil
      with d assms(1,2) show ?thesis by simp
    next
      case (Cons c1 cs')
      define p1 where "p1 = (of_char c1 :: nat)"
      have c1: "char_of p1 = c1" by (simp add: p1_def)
      from d Cons assms(1,2) have ok: "secondOK p0 c1"
        and rw: "r = (p0 mod 32) * 64 + p1 mod 64" "w = 2"
        by (auto simp: p1_def split: if_splits)
      from ok two have b1: "128 \<le> p1" "p1 \<le> 191"
        by (auto simp: secondOK_def acceptLo_def acceptHi_def p1_def)
      note e = enc2 [OF two b1, folded rw(1)]
      from e have "EncodeRune r = [char_of p0, char_of p1]"
        by (simp add: EncodeRune_def)
      with c0 c1 rw(2) show ?thesis by (simp add: s Cons)
    qed
  next
    case three
    then have d: "DecodeRune s =
        (case cs of
           c1 # c2 # _ \<Rightarrow>
             if secondOK p0 c1 \<and> isContByte c2
             then ((p0 mod 16) * 4096 + (of_char c1 mod 64) * 64 + of_char c2 mod 64, 3)
             else (RuneError, 1)
         | _ \<Rightarrow> (RuneError, 1))"
      unfolding p0_def by (simp add: s Let_def)
    from d assms(1,2) obtain c1 c2 cs' where cs: "cs = c1 # c2 # cs'"
      by (cases cs; cases "tl cs") auto
    define p1 where "p1 = (of_char c1 :: nat)"
    define p2 where "p2 = (of_char c2 :: nat)"
    have c1: "char_of p1 = c1" by (simp add: p1_def)
    have c2: "char_of p2 = c2" by (simp add: p2_def)
    from d cs assms(1,2) have ok: "secondOK p0 c1" "isContByte c2"
      and rw: "r = (p0 mod 16) * 4096 + (p1 mod 64) * 64 + p2 mod 64" "w = 3"
      by (auto simp: p1_def p2_def split: if_splits)
    from ok have b1: "acceptLo p0 \<le> p1" "p1 \<le> acceptHi p0" and b2: "128 \<le> p2" "p2 \<le> 191"
      by (auto simp: secondOK_def isContByte_def p1_def p2_def)
    note e = enc3 [OF three b1 b2, folded rw(1)]
    from e have "\<not> r < 128" "\<not> r < 2048" "r < 65536"
      "\<not> (r > 1114111 \<or> (55296 \<le> r \<and> r \<le> 57343))"
      by auto
    then have "EncodeRune r = [char_of (224 + r div 4096), char_of (128 + (r div 64) mod 64),
              char_of (128 + r mod 64)]"
      unfolding EncodeRune_def by auto
    with e have "EncodeRune r = [char_of p0, char_of p1, char_of p2]"
      by simp
    with c0 c1 c2 rw(2) show ?thesis by (simp add: s cs)
  next
    case four
    then have d: "DecodeRune s =
        (case cs of
           c1 # c2 # c3 # _ \<Rightarrow>
             if secondOK p0 c1 \<and> isContByte c2 \<and> isContByte c3
             then ((p0 mod 8) * 262144 + (of_char c1 mod 64) * 4096
                     + (of_char c2 mod 64) * 64 + of_char c3 mod 64, 4)
             else (RuneError, 1)
         | _ \<Rightarrow> (RuneError, 1))"
      unfolding p0_def by (simp add: s Let_def)
    from d assms(1,2) obtain c1 c2 c3 cs' where cs: "cs = c1 # c2 # c3 # cs'"
      by (cases cs; cases "tl cs"; cases "tl (tl cs)") auto
    define p1 where "p1 = (of_char c1 :: nat)"
    define p2 where "p2 = (of_char c2 :: nat)"
    define p3 where "p3 = (of_char c3 :: nat)"
    have c1: "char_of p1 = c1" by (simp add: p1_def)
    have c2: "char_of p2 = c2" by (simp add: p2_def)
    have c3: "char_of p3 = c3" by (simp add: p3_def)
    from d cs assms(1,2) have ok: "secondOK p0 c1" "isContByte c2" "isContByte c3"
      and rw: "r = (p0 mod 8) * 262144 + (p1 mod 64) * 4096 + (p2 mod 64) * 64 + p3 mod 64"
        "w = 4"
      by (auto simp: p1_def p2_def p3_def split: if_splits)
    from ok have b1: "acceptLo p0 \<le> p1" "p1 \<le> acceptHi p0" and b2: "128 \<le> p2" "p2 \<le> 191"
      and b3: "128 \<le> p3" "p3 \<le> 191"
      by (auto simp: secondOK_def isContByte_def p1_def p2_def p3_def)
    note e = enc4 [OF four b1 b2 b3, folded rw(1)]
    from e have "\<not> r < 128" "\<not> r < 2048" "\<not> r < 65536"
      "\<not> (r > 1114111 \<or> (55296 \<le> r \<and> r \<le> 57343))"
      by auto
    then have "EncodeRune r = [char_of (240 + r div 262144), char_of (128 + (r div 4096) mod 64),
            char_of (128 + (r div 64) mod 64), char_of (128 + r mod 64)]"
      unfolding EncodeRune_def by auto
    with e have "EncodeRune r = [char_of p0, char_of p1, char_of p2, char_of p3]"
      by simp
    with c0 c1 c2 c3 rw(2) show ?thesis by (simp add: s cs)
  qed
qed

subsection \<open>Well-formed lines\<close>

text \<open>
  \<open>validUTF8\<close> is \<open>utf8.ValidString\<close>: the string is a sequence of well-formed
  encodings, none of which decodes to the error \<open>(U+FFFD, 1)\<close>. A width of 1 is an
  error unless the byte is ASCII.
\<close>

function validUTF8 :: "string \<Rightarrow> bool" where
  "validUTF8 [] = True"
| "validUTF8 (c # cs) =
     ((isASCII c \<or> snd (DecodeRune (c # cs)) \<noteq> 1)
      \<and> validUTF8 (drop (snd (DecodeRune (c # cs))) (c # cs)))"
  by pat_completeness auto
termination
proof (relation "measure length")
  show "wf (measure length)" by simp
next
  fix c :: char and cs :: string
  have "0 < snd (DecodeRune (c # cs))" by (rule DecodeRune_size_pos) simp
  then show "(drop (snd (DecodeRune (c # cs))) (c # cs), c # cs) \<in> measure length"
    by simp
qed

declare validUTF8.simps [simp del]

lemma DecodeRune_error_iff:
  "DecodeRune (c # cs) \<noteq> (RuneError, 1) \<longleftrightarrow> isASCII c \<or> snd (DecodeRune (c # cs)) \<noteq> 1"
proof (cases "isASCII c")
  case True
  then have "DecodeRune (c # cs) = (of_char c, 1)" "(of_char c :: nat) < 128"
    by (simp_all add: isASCII_def Let_def)
  with True show ?thesis by (simp add: RuneError_def)
next
  case False
  then have "snd (DecodeRune (c # cs)) = 1 \<Longrightarrow> DecodeRune (c # cs) = (RuneError, 1)"
    by (auto simp: isASCII_def Let_def split: list.splits if_splits)
  with False show ?thesis by auto
qed

lemma validUTF8_Nil: "validUTF8 []"
  by (simp add: validUTF8.simps)

lemma validUTF8_step:
  "s \<noteq> [] \<Longrightarrow> validUTF8 s \<longleftrightarrow>
     DecodeRune s \<noteq> (RuneError, 1) \<and> validUTF8 (drop (snd (DecodeRune s)) s)"
proof (cases s)
  case Nil
  assume "s \<noteq> []"
  with Nil show ?thesis by simp
next
  case (Cons c cs)
  show ?thesis unfolding Cons validUTF8.simps DecodeRune_error_iff ..
qed

lemma isLetter_isASCII: "isLetter c \<Longrightarrow> isASCII c"
  by (auto simp: isLetter_def isASCII_def less_eq_char_def)

lemma DecodeRune_unit_nonASCII:
  assumes "DecodeRune s = (r, w)" and "2 \<le> w" and "k < w"
  shows "\<not> isASCII (s ! k)"
proof -
  from assms(1,2) obtain c0 cs where s: "s = c0 # cs" by (cases s) auto
  define p0 where "p0 = (of_char c0 :: nat)"
  consider (ascii) "p0 < 128" | (two) "194 \<le> p0" "p0 \<le> 223"
    | (three) "224 \<le> p0" "p0 \<le> 239" | (four) "240 \<le> p0" "p0 \<le> 244"
    | (bad) "128 \<le> p0" "p0 < 194" | (bad2) "244 < p0"
    by linarith
  then show ?thesis
  proof cases
    case ascii
    with assms(1) have "w = 1" unfolding p0_def by (simp add: s Let_def)
    with assms(2) show ?thesis by simp
  next
    case bad
    with assms(1) have "w = 1" unfolding p0_def by (simp add: s Let_def)
    with assms(2) show ?thesis by simp
  next
    case bad2
    with assms(1) have "w = 1" unfolding p0_def by (simp add: s Let_def)
    with assms(2) show ?thesis by simp
  next
    case two
    then have d: "DecodeRune s =
        (case cs of
           c1 # _ \<Rightarrow>
             if secondOK (of_char c0) c1 then ((of_char c0 mod 32) * 64 + of_char c1 mod 64, 2)
             else (RuneError, 1)
         | _ \<Rightarrow> (RuneError, 1))"
      unfolding p0_def by (simp add: s Let_def)
    from d assms(1,2) obtain c1 cs' where cs: "cs = c1 # cs'" by (cases cs) auto
    from d cs assms(1,2) have ok: "secondOK (of_char c0) c1" and w: "w = 2"
      by (auto split: if_splits)
    from ok have "128 \<le> (of_char c1 :: nat)"
      by (auto simp: secondOK_def acceptLo_def split: if_splits)
    moreover from two have "128 \<le> (of_char c0 :: nat)" by (simp add: p0_def)
    moreover from w assms(3) have "k = 0 \<or> k = 1" by auto
    ultimately show ?thesis by (auto simp: s cs isASCII_def)
  next
    case three
    then have d: "DecodeRune s =
        (case cs of
           c1 # c2 # _ \<Rightarrow>
             if secondOK (of_char c0) c1 \<and> isContByte c2
             then ((of_char c0 mod 16) * 4096 + (of_char c1 mod 64) * 64 + of_char c2 mod 64, 3)
             else (RuneError, 1)
         | _ \<Rightarrow> (RuneError, 1))"
      unfolding p0_def by (simp add: s Let_def)
    from d assms(1,2) obtain c1 c2 cs' where cs: "cs = c1 # c2 # cs'"
      by (cases cs; cases "tl cs") auto
    from d cs assms(1,2) have ok: "secondOK (of_char c0) c1" "isContByte c2" and w: "w = 3"
      by (auto split: if_splits)
    from ok have "128 \<le> (of_char c1 :: nat)" "128 \<le> (of_char c2 :: nat)"
      by (auto simp: secondOK_def acceptLo_def isContByte_def split: if_splits)
    moreover from three have "128 \<le> (of_char c0 :: nat)" by (simp add: p0_def)
    moreover from w assms(3) have "k = 0 \<or> k = 1 \<or> k = 2" by auto
    ultimately show ?thesis by (auto simp: s cs isASCII_def)
  next
    case four
    then have d: "DecodeRune s =
        (case cs of
           c1 # c2 # c3 # _ \<Rightarrow>
             if secondOK (of_char c0) c1 \<and> isContByte c2 \<and> isContByte c3
             then ((of_char c0 mod 8) * 262144 + (of_char c1 mod 64) * 4096
                     + (of_char c2 mod 64) * 64 + of_char c3 mod 64, 4)
             else (RuneError, 1)
         | _ \<Rightarrow> (RuneError, 1))"
      unfolding p0_def by (simp add: s Let_def)
    from d assms(1,2) obtain c1 c2 c3 cs' where cs: "cs = c1 # c2 # c3 # cs'"
      by (cases cs; cases "tl cs"; cases "tl (tl cs)") auto
    from d cs assms(1,2) have ok: "secondOK (of_char c0) c1" "isContByte c2" "isContByte c3"
      and w: "w = 4"
      by (auto split: if_splits)
    from ok have "128 \<le> (of_char c1 :: nat)" "128 \<le> (of_char c2 :: nat)"
        "128 \<le> (of_char c3 :: nat)"
      by (auto simp: secondOK_def acceptLo_def isContByte_def split: if_splits)
    moreover from four have "128 \<le> (of_char c0 :: nat)" by (simp add: p0_def)
    moreover from w assms(3) have "k = 0 \<or> k = 1 \<or> k = 2 \<or> k = 3" by auto
    ultimately show ?thesis by (auto simp: s cs isASCII_def)
  qed
qed

lemma validUTF8_at_ASCII:
  "validUTF8 t \<Longrightarrow> m < length t \<Longrightarrow> isASCII (t ! m)
     \<Longrightarrow> validUTF8 (drop m t) \<and> validUTF8 (drop (m + 1) t)"
proof (induction "length t" arbitrary: t m rule: less_induct)
  case less
  from less.prems(2) have ne: "t \<noteq> []" by auto
  obtain r w where d: "DecodeRune t = (r, w)" by (cases "DecodeRune t")
  from less.prems(1) ne d have ok: "(r, w) \<noteq> (RuneError, 1)" and rest: "validUTF8 (drop w t)"
    by (simp_all add: validUTF8_step)
  from DecodeRune_roundtrip [OF d ok ne] have w: "0 < w" "w \<le> length t" by simp_all
  show ?case
  proof (cases "m < w")
    case True
    have "w = 1"
    proof (rule ccontr)
      assume "w \<noteq> 1"
      with w have "2 \<le> w" by simp
      from DecodeRune_unit_nonASCII [OF d this True] less.prems(3) show False by simp
    qed
    with True have "m = 0" by simp
    with \<open>w = 1\<close> rest less.prems(1) show ?thesis by simp
  next
    case False
    then have mw: "w \<le> m" by simp
    have "length (drop w t) < length t" using w ne by simp
    moreover have "m - w < length (drop w t)" using mw less.prems(2) by simp
    moreover have "isASCII (drop w t ! (m - w))" using mw less.prems(2,3) by simp
    ultimately have "validUTF8 (drop (m - w) (drop w t)) \<and> validUTF8 (drop (m - w + 1) (drop w t))"
      using rest less.hyps by blast
    with mw show ?thesis by simp
  qed
qed

lemma validUTF8_after_ASCII:
  assumes "validUTF8 (drop a s)" and "a \<le> m" and "m < length s" and "isASCII (s ! m)"
  shows "validUTF8 (drop (m + 1) s)"
proof -
  have "m - a < length (drop a s)" using assms(2,3) by simp
  moreover have "isASCII (drop a s ! (m - a))" using assms(2,3,4) by simp
  ultimately have "validUTF8 (drop (m - a + 1) (drop a s))"
    using validUTF8_at_ASCII [OF assms(1)] by blast
  with assms(2) show ?thesis by simp
qed

lemma decodeRuneInBytes_valid:
  assumes "validUTF8 t" and "t \<noteq> []"
  shows "EncodeRune (fst (decodeRuneInBytes t)) = take (snd (decodeRuneInBytes t)) t
     \<and> 0 < snd (decodeRuneInBytes t) \<and> snd (decodeRuneInBytes t) \<le> length t
     \<and> validUTF8 (drop (snd (decodeRuneInBytes t)) t)"
proof -
  obtain r w where d: "DecodeRune t = (r, w)" by (cases "DecodeRune t")
  from assms d have ok: "(r, w) \<noteq> (RuneError, 1)" and rest: "validUTF8 (drop w t)"
    by (simp_all add: validUTF8_step)
  from DecodeRune_roundtrip [OF d ok assms(2)]
  have rt: "EncodeRune r = take w t" and w: "0 < w" "w \<le> length t" by simp_all
  from rt w have len: "length (EncodeRune r) = w" by simp
  from assms(2) obtain c0 cs where t: "t = c0 # cs" by (cases t) auto
  show ?thesis
  proof (cases "(of_char c0 :: nat) < 128")
    case True
    then have "decodeRuneInBytes t = (of_char c0, 1)" by (simp add: decodeRuneInBytes_def t)
    moreover from True d have "r = of_char c0" "w = 1" by (simp_all add: t Let_def)
    ultimately show ?thesis using rt w rest by simp
  next
    case False
    then have "decodeRuneInBytes t = (r, w)"
      using d len by (simp add: decodeRuneInBytes_def t Let_def)
    then show ?thesis using rt w rest by simp
  qed
qed


text \<open>
  \<open>oscClosed s\<close>: wherever the two bytes \<open>ESC ]\<close> stand in \<open>s\<close>, the terminator
  \<open>ESC \\<close> stands somewhere after them.
\<close>

definition oscClosed :: "string \<Rightarrow> bool" where
  "oscClosed s \<longleftrightarrow>
     list_all (\<lambda>i. s ! i = ESC \<and> s ! (i + 1) = CHR '']'' \<longrightarrow>
                 list_ex (\<lambda>j. s ! j = ESC \<and> s ! (j + 1) = BSL) [i + 2..<length s - 1])
       [0..<length s - 1]"

lemma oscClosed_D:
  assumes "oscClosed s" and "i + 1 < length s" and "s ! i = ESC" and "s ! (i + 1) = CHR '']''"
  shows "\<exists>j. i + 2 \<le> j \<and> j + 1 < length s \<and> s ! j = ESC \<and> s ! (j + 1) = BSL"
proof -
  from assms(2) have "i \<in> set [0..<length s - 1]" by auto
  with assms(1,3,4) have "list_ex (\<lambda>j. s ! j = ESC \<and> s ! (j + 1) = BSL) [i + 2..<length s - 1]"
    unfolding oscClosed_def list_all_iff by blast
  then obtain j where "j \<in> set [i + 2..<length s - 1]" "s ! j = ESC \<and> s ! (j + 1) = BSL"
    unfolding list_ex_iff by blast
  then show ?thesis by (intro exI [of _ j]) auto
qed

lemma oscSkip_terminated:
  "a \<le> j \<Longrightarrow> j + 1 < length s \<Longrightarrow> s ! j = ESC \<Longrightarrow> s ! (j + 1) = BSL
     \<Longrightarrow> a + 2 \<le> oscSkip s a \<and> oscSkip s a \<le> length s \<and> s ! (oscSkip s a - 1) = BSL"
proof (induction "j - a" arbitrary: a)
  case 0
  then have "a = j" by simp
  with "0.prems" have "oscSkip s a = a + 2" by (simp add: oscSkip_found)
  with "0.prems" \<open>a = j\<close> show ?case by simp
next
  case (Suc d)
  then have lt: "a < j" by simp
  with Suc.prems have inr: "a + 1 < length s" by simp
  show ?case
  proof (cases "s ! a = ESC \<and> s ! (a + 1) = BSL")
    case True
    with inr have "oscSkip s a = a + 2" by (simp add: oscSkip_found)
    with True inr show ?thesis by simp
  next
    case False
    with inr have eq: "oscSkip s a = oscSkip s (a + 1)" by (rule oscSkip_step)
    have "a + 1 + 2 \<le> oscSkip s (a + 1) \<and> oscSkip s (a + 1) \<le> length s
            \<and> s ! (oscSkip s (a + 1) - 1) = BSL"
    proof (rule Suc.hyps(1))
      show "d = j - (a + 1)" using Suc.hyps(2) by simp
      show "a + 1 \<le> j" using lt by simp
    qed (rule Suc.prems)+
    with eq show ?thesis by simp
  qed
qed

lemma skipToLetter_props:
  "i \<le> length s \<Longrightarrow>
     skipToLetter s i \<le> length s \<and> (skipToLetter s i < length s \<longrightarrow> isLetter (s ! skipToLetter s i))"
proof (induction s i rule: skipToLetter.induct)
  case (1 s i)
  show ?case
  proof (cases "i < length s \<and> \<not> isLetter (s ! i)")
    case True
    then have "skipToLetter s i = skipToLetter s (i + 1)" by (simp add: skipToLetter_step)
    moreover from True "1.IH" have "skipToLetter s (i + 1) \<le> length s \<and>
      (skipToLetter s (i + 1) < length s \<longrightarrow> isLetter (s ! skipToLetter s (i + 1)))"
      by simp
    ultimately show ?thesis by simp
  next
    case False
    then have "skipToLetter s i = i" by (rule skipToLetter_stop)
    with False "1.prems" show ?thesis by auto
  qed
qed

subsection \<open>The loop, case by case\<close>

lemma truncLoop_exit:
  "\<not> (i < length s \<and> int vc < n) \<Longrightarrow> truncLoop s n i vc res = (res, vc)"
  by (subst truncLoop.simps) auto

lemma truncLoop_csi:
  "i < length s \<Longrightarrow> int vc < n \<Longrightarrow> s ! i = ESC \<Longrightarrow> i + 1 < length s \<Longrightarrow> s ! (i + 1) = CHR ''[''
     \<Longrightarrow> truncLoop s n i vc res
          = truncLoop s n (csiFinal s (i + 2)) vc (res @ slice s i (csiFinal s (i + 2)))"
  by (subst truncLoop.simps) simp

lemma truncLoop_osc:
  "i < length s \<Longrightarrow> int vc < n \<Longrightarrow> s ! i = ESC \<Longrightarrow> i + 1 < length s \<Longrightarrow> s ! (i + 1) = CHR '']''
     \<Longrightarrow> truncLoop s n i vc res
          = truncLoop s n (oscSkip s (i + 2)) vc (res @ slice s i (oscSkip s (i + 2)))"
  by (subst truncLoop.simps) simp

lemma truncLoop_esc:
  "i < length s \<Longrightarrow> int vc < n \<Longrightarrow> s ! i = ESC
     \<Longrightarrow> \<not> (i + 1 < length s \<and> (s ! (i + 1) = CHR ''['' \<or> s ! (i + 1) = CHR '']''))
     \<Longrightarrow> truncLoop s n i vc res = truncLoop s n (i + 1) vc (res @ [s ! i])"
  by (subst truncLoop.simps) auto

lemma truncLoop_char:
  "i < length s \<Longrightarrow> int vc < n \<Longrightarrow> s ! i \<noteq> ESC
     \<Longrightarrow> truncLoop s n i vc res
          = truncLoop s n (i + snd (decodeRuneInBytes (drop i s))) (vc + 1)
              (res @ EncodeRune (fst (decodeRuneInBytes (drop i s))))"
  by (subst truncLoop.simps) simp

lemma ESC_isASCII: "isASCII ESC"
  by (simp add: isASCII_def ESC_def)

lemma BSL_isASCII: "isASCII BSL"
  by (simp add: isASCII_def BSL_def)

lemma truncLoop_whole:
  "oscClosed s \<Longrightarrow> i \<le> length s \<Longrightarrow> validUTF8 (drop i s) \<Longrightarrow> res = take i s
     \<Longrightarrow> int (snd (truncLoop s n i vc res)) < n \<Longrightarrow> fst (truncLoop s n i vc res) = s"
proof (induction s n i vc res rule: truncLoop.induct)
  case (1 s n i vc res)
  note closed = "1.prems"(1)
  show ?case
  proof (cases "i < length s \<and> int vc < n")
    case False
    then have ex: "truncLoop s n i vc res = (res, vc)" by (rule truncLoop_exit)
    with "1.prems"(5) have "int vc < n" by simp
    with False have "\<not> i < length s" by simp
    with "1.prems"(2,4) ex show ?thesis by simp
  next
    case True
    then have il: "i < length s" and vn: "int vc < n" by simp_all
    show ?thesis
    proof (cases "s ! i = ESC")
      case esc: True
      show ?thesis
      proof (cases "i + 1 < length s \<and> s ! (i + 1) = CHR ''[''")
        case csi: True
        define e where "e = csiFinal s (i + 2)"
        have eq: "truncLoop s n i vc res = truncLoop s n e vc (res @ slice s i e)"
          unfolding e_def using il vn esc csi by (simp add: truncLoop_csi)
        define j where "j = skipToLetter s (i + 2)"
        have ij: "i + 2 \<le> j" unfolding j_def by (rule skipToLetter_ge)
        from csi have "i + 2 \<le> length s" by simp
        from skipToLetter_props [OF this]
        have jl: "j \<le> length s" and jletter: "j < length s \<longrightarrow> isLetter (s ! j)"
          by (simp_all add: j_def)
        have ev: "e = (if j < length s then j + 1 else j)"
          by (simp add: e_def csiFinal_def j_def Let_def)
        have el: "e \<le> length s" using jl by (simp add: ev)
        have ie: "i \<le> e" using ij by (simp add: ev)
        have valid: "validUTF8 (drop e s)"
        proof (cases "j < length s")
          case True
          with jletter have "isASCII (s ! j)" by (simp add: isLetter_isASCII)
          from validUTF8_after_ASCII [OF "1.prems"(3) _ True this] ij True
          show ?thesis by (simp add: ev)
        next
          case False
          with jl have "e = length s" by (simp add: ev)
          then show ?thesis by (simp add: validUTF8_Nil)
        qed
        have res': "res @ slice s i e = take e s"
          using "1.prems"(4) take_slice [OF ie, of s] by simp
        have "fst (truncLoop s n e vc (res @ slice s i e)) = s"
          using "1.IH"(1) [OF True esc csi closed] el valid res' "1.prems"(5) eq
          by (simp add: e_def)
        with eq show ?thesis by simp
      next
        case nocsi: False
        show ?thesis
        proof (cases "i + 1 < length s \<and> s ! (i + 1) = CHR '']''")
          case osc: True
          define e where "e = oscSkip s (i + 2)"
          have eq: "truncLoop s n i vc res = truncLoop s n e vc (res @ slice s i e)"
            unfolding e_def using il vn esc osc by (simp add: truncLoop_osc)
          from oscClosed_D [OF closed _ esc] osc obtain j where
            j: "i + 2 \<le> j" "j + 1 < length s" "s ! j = ESC" "s ! (j + 1) = BSL"
            by blast
          from oscSkip_terminated [OF j]
          have e2: "i + 2 + 2 \<le> e" and el: "e \<le> length s" and eb: "s ! (e - 1) = BSL"
            by (simp_all add: e_def)
          have ie: "i \<le> e" using e2 by simp
          have "isASCII (s ! (e - 1))" using eb by (simp add: BSL_isASCII)
          from validUTF8_after_ASCII [OF "1.prems"(3) _ _ this] e2 el
          have valid: "validUTF8 (drop e s)" by simp
          have res': "res @ slice s i e = take e s"
            using "1.prems"(4) take_slice [OF ie, of s] by simp
          have "fst (truncLoop s n e vc (res @ slice s i e)) = s"
            using "1.IH"(2) [OF True esc nocsi osc closed] el valid res' "1.prems"(5) eq
            by (simp add: e_def)
          with eq show ?thesis by simp
        next
          case noosc: False
          from nocsi noosc
          have other: "\<not> (i + 1 < length s \<and> (s ! (i + 1) = CHR ''['' \<or> s ! (i + 1) = CHR '']''))"
            by blast
          have eq: "truncLoop s n i vc res = truncLoop s n (i + 1) vc (res @ [s ! i])"
            using il vn esc other by (rule truncLoop_esc)
          have "isASCII (s ! i)" using esc by (simp add: ESC_isASCII)
          from validUTF8_after_ASCII [OF "1.prems"(3) _ il this]
          have valid: "validUTF8 (drop (i + 1) s)" by simp
          have res': "res @ [s ! i] = take (i + 1) s"
            using "1.prems"(4) il by (simp add: take_Suc_conv_app_nth)
          have "fst (truncLoop s n (i + 1) vc (res @ [s ! i])) = s"
            using "1.IH"(3) [OF True esc nocsi noosc closed] il valid res' "1.prems"(5) eq
            by simp
          with eq show ?thesis by simp
        qed
      qed
    next
      case char: False
      define r where "r = fst (decodeRuneInBytes (drop i s))"
      define size where "size = snd (decodeRuneInBytes (drop i s))"
      have eq: "truncLoop s n i vc res = truncLoop s n (i + size) (vc + 1) (res @ EncodeRune r)"
        unfolding r_def size_def using il vn char by (rule truncLoop_char)
      from il have ne: "drop i s \<noteq> []" by simp
      from decodeRuneInBytes_valid [OF "1.prems"(3) ne]
      have enc: "EncodeRune r = take size (drop i s)" and sz: "0 < size" "size \<le> length (drop i s)"
        and valid: "validUTF8 (drop size (drop i s))"
        by (simp_all add: r_def size_def)
      have el: "i + size \<le> length s" using sz il by simp
      have valid': "validUTF8 (drop (i + size) s)" using valid by (simp add: add.commute)
      have res': "res @ EncodeRune r = take (i + size) s"
        using "1.prems"(4) enc by (simp add: take_add)
      have "fst (truncLoop s n (i + size) (vc + 1) (res @ EncodeRune r)) = s"
        using "1.IH"(4) [OF True char closed] el valid' res' "1.prems"(5) eq
        by (simp add: r_def size_def)
      with eq show ?thesis by simp
    qed
  qed
qed


lemma truncLoop_count_mono: "vc \<le> snd (truncLoop s n i vc res)"
proof (induction s n i vc res rule: truncLoop.induct)
  case (1 s n i vc res)
  show ?case
  proof (cases "i < length s \<and> int vc < n")
    case False
    then show ?thesis by (simp add: truncLoop_exit)
  next
    case True
    then have il: "i < length s" and vn: "int vc < n" by simp_all
    show ?thesis
    proof (cases "s ! i = ESC")
      case esc: True
      show ?thesis
      proof (cases "i + 1 < length s \<and> s ! (i + 1) = CHR ''[''")
        case csi: True
        with "1.IH"(1) [OF True esc csi] il vn esc show ?thesis by (simp add: truncLoop_csi)
      next
        case nocsi: False
        show ?thesis
        proof (cases "i + 1 < length s \<and> s ! (i + 1) = CHR '']''")
          case osc: True
          with "1.IH"(2) [OF True esc nocsi osc] il vn esc show ?thesis
            by (simp add: truncLoop_osc)
        next
          case noosc: False
          from nocsi noosc
          have "\<not> (i + 1 < length s \<and> (s ! (i + 1) = CHR ''['' \<or> s ! (i + 1) = CHR '']''))"
            by blast
          from truncLoop_esc [OF il vn esc this] "1.IH"(3) [OF True esc nocsi noosc]
          show ?thesis by simp
        qed
      qed
    next
      case char: False
      from truncLoop_char [OF il vn char] "1.IH"(4) [OF True char]
      show ?thesis by simp
    qed
  qed
qed

lemma truncLoop_count_le: "snd (truncLoop s n i vc res) \<le> vc + (length s - i)"
proof (induction s n i vc res rule: truncLoop.induct)
  case (1 s n i vc res)
  show ?case
  proof (cases "i < length s \<and> int vc < n")
    case False
    then show ?thesis by (simp add: truncLoop_exit)
  next
    case True
    then have il: "i < length s" and vn: "int vc < n" by simp_all
    show ?thesis
    proof (cases "s ! i = ESC")
      case esc: True
      show ?thesis
      proof (cases "i + 1 < length s \<and> s ! (i + 1) = CHR ''[''")
        case csi: True
        have "i + 2 \<le> csiFinal s (i + 2)" by (rule csiFinal_ge)
        then have "vc + (length s - csiFinal s (i + 2)) \<le> vc + (length s - i)" by linarith
        with "1.IH"(1) [OF True esc csi]
        have "snd (truncLoop s n (csiFinal s (i + 2)) vc (res @ slice s i (csiFinal s (i + 2))))
                \<le> vc + (length s - i)"
          by (rule order_trans)
        with truncLoop_csi [OF il vn esc] csi show ?thesis by simp
      next
        case nocsi: False
        show ?thesis
        proof (cases "i + 1 < length s \<and> s ! (i + 1) = CHR '']''")
          case osc: True
          have "i + 2 \<le> oscSkip s (i + 2)" by (rule oscSkip_ge)
          then have "vc + (length s - oscSkip s (i + 2)) \<le> vc + (length s - i)" by linarith
          with "1.IH"(2) [OF True esc nocsi osc]
          have "snd (truncLoop s n (oscSkip s (i + 2)) vc (res @ slice s i (oscSkip s (i + 2))))
                  \<le> vc + (length s - i)"
            by (rule order_trans)
          with truncLoop_osc [OF il vn esc] osc show ?thesis by simp
        next
          case noosc: False
          from nocsi noosc
          have "\<not> (i + 1 < length s \<and> (s ! (i + 1) = CHR ''['' \<or> s ! (i + 1) = CHR '']''))"
            by blast
          from truncLoop_esc [OF il vn esc this] "1.IH"(3) [OF True esc nocsi noosc] il
          show ?thesis by simp
        qed
      qed
    next
      case char: False
      from il have "drop i s \<noteq> []" by simp
      then have "0 < snd (decodeRuneInBytes (drop i s))" by (rule decodeRuneInBytes_size)
      with il have "vc + 1 + (length s - (i + snd (decodeRuneInBytes (drop i s))))
                      \<le> vc + (length s - i)"
        by linarith
      with "1.IH"(4) [OF True char]
      have "snd (truncLoop s n (i + snd (decodeRuneInBytes (drop i s))) (vc + 1)
              (res @ EncodeRune (fst (decodeRuneInBytes (drop i s))))) \<le> vc + (length s - i)"
        by (rule order_trans)
      with truncLoop_char [OF il vn char] show ?thesis by simp
    qed
  qed
qed

lemma truncLoop_bound_irrelevant:
  "int (snd (truncLoop s N i vc res)) < n \<Longrightarrow> int (snd (truncLoop s N i vc res)) < N
     \<Longrightarrow> truncLoop s n i vc res = truncLoop s N i vc res"
proof (induction s N i vc res rule: truncLoop.induct)
  case (1 s N i vc res)
  have mono: "vc \<le> snd (truncLoop s N i vc res)" by (rule truncLoop_count_mono)
  with "1.prems" have vn: "int vc < n" and vN: "int vc < N" by simp_all
  show ?case
  proof (cases "i < length s")
    case False
    then show ?thesis by (simp add: truncLoop_exit)
  next
    case il: True
    with vN have guard: "i < length s \<and> int vc < N" by simp
    show ?thesis
    proof (cases "s ! i = ESC")
      case esc: True
      show ?thesis
      proof (cases "i + 1 < length s \<and> s ! (i + 1) = CHR ''[''")
        case csi: True
        with il vn vN esc "1.prems" "1.IH"(1) [OF guard esc csi] show ?thesis
          by (simp add: truncLoop_csi)
      next
        case nocsi: False
        show ?thesis
        proof (cases "i + 1 < length s \<and> s ! (i + 1) = CHR '']''")
          case osc: True
          with il vn vN esc "1.prems" "1.IH"(2) [OF guard esc nocsi osc] show ?thesis
            by (simp add: truncLoop_osc)
        next
          case noosc: False
          from nocsi noosc
          have other: "\<not> (i + 1 < length s \<and> (s ! (i + 1) = CHR ''['' \<or> s ! (i + 1) = CHR '']''))"
            by blast
          from truncLoop_esc [OF il vn esc other] truncLoop_esc [OF il vN esc other]
            "1.prems" "1.IH"(3) [OF guard esc nocsi noosc]
          show ?thesis by simp
        qed
      qed
    next
      case char: False
      from truncLoop_char [OF il vn char] truncLoop_char [OF il vN char]
        "1.prems" "1.IH"(4) [OF guard char]
      show ?thesis by simp
    qed
  qed
qed

subsection \<open>A line shorter than the limit\<close>

text \<open>
  The number of visible characters of a line, as \<open>truncateVisibleChars\<close> counts them:
  the counter at the end of a run whose limit is out of reach.
\<close>

definition visibleChars :: "string \<Rightarrow> nat" where
  "visibleChars s = snd (truncLoop s (int (length s) + 1) 0 0 [])"

text \<open>
  C6 (as amended). For every line that is well-formed UTF-8, in which every \<open>ESC ]\<close>
  is followed by its terminator \<open>ESC \\<close>, and that has fewer than \<open>n\<close> visible
  characters, \<open>truncateVisibleChars\<close> returns the line unchanged, byte for byte, trailing
  control sequences included.
\<close>

theorem truncateVisibleChars_whole:
  assumes "validUTF8 s" and "oscClosed s" and "int (visibleChars s) < n"
  shows "truncateVisibleChars s n = s"
proof -
  define N where "N = int (length s) + 1"
  have "snd (truncLoop s N 0 0 []) \<le> 0 + (length s - 0)" by (rule truncLoop_count_le)
  then have ltN: "int (snd (truncLoop s N 0 0 [])) < N" by (simp add: N_def)
  from assms(3) have ltn: "int (snd (truncLoop s N 0 0 [])) < n"
    by (simp add: visibleChars_def N_def)
  from truncLoop_bound_irrelevant [OF ltn ltN]
  have eq: "truncLoop s n 0 0 [] = truncLoop s N 0 0 []" .
  with ltn have cnt: "int (snd (truncLoop s n 0 0 [])) < n" by simp
  have "fst (truncLoop s n 0 0 []) = s"
    by (rule truncLoop_whole [OF assms(2) _ _ _ cnt]) (simp_all add: assms(1))
  then show ?thesis by (simp add: truncateVisibleChars_def)
qed

text \<open>
  A line with a style sequence, a two-byte character, a hyperlink marker and a closing
  style sequence: three visible characters, and a limit of four.
\<close>

definition styledLine :: string where
  "styledLine =
     ESC # ''[1m'' @ eacute @ ''b'' @ ESC # '']8;;u'' @ [ESC, BSL] @ ''c'' @ ESC # ''[0m''"

theorem truncateVisibleChars_whole_witness:
  "truncateVisibleChars styledLine 4 = styledLine \<and> visibleChars styledLine = 3"
proof -
  have v: "validUTF8 styledLine" by code_simp
  have c: "oscClosed styledLine" by code_simp
  have n: "visibleChars styledLine = (3::nat)" by code_simp
  then have "int (visibleChars styledLine) < 4" by simp
  from truncateVisibleChars_whole [OF v c this] n show ?thesis by simp
qed

subsection \<open>Lines that are not returned whole\<close>

lemma char_of_EF_BF_BD:
  "char_of (239::nat) = CHR 0xEF" "char_of (191::nat) = CHR 0xBF" "char_of (189::nat) = CHR 0xBD"
  by code_simp+

lemma EncodeRune_RuneError: "EncodeRune RuneError = [CHR 0xEF, CHR 0xBF, CHR 0xBD]"
  by (simp add: EncodeRune_def RuneError_def char_of_EF_BF_BD)

lemma decodeRuneInBytes_malformed:
  assumes "\<not> isASCII c" and "snd (DecodeRune (c # cs)) = 1"
  shows "decodeRuneInBytes (c # cs) = (RuneError, 3)"
proof -
  from assms have "DecodeRune (c # cs) = (RuneError, 1)"
    using DecodeRune_error_iff [of c cs] by simp
  then have "fst (DecodeRune (c # cs)) = RuneError" by simp
  with assms(1) show ?thesis
    by (simp add: decodeRuneInBytes_def isASCII_def Let_def EncodeRune_RuneError
             del: DecodeRune.simps)
qed

definition malformed :: string where
  "malformed = [CHR 0xFF, CHR ''a'']"

lemma truncLoop_malformed:
  assumes "(1::int) \<le> n"
  shows "truncLoop malformed n 0 0 [] = ([CHR 0xEF, CHR 0xBF, CHR 0xBD], 1)"
proof -
  have a: "\<not> isASCII (CHR 0xFF)" by (simp add: isASCII_def)
  have b: "snd (DecodeRune [CHR 0xFF, CHR ''a'']) = 1" by (simp add: Let_def secondOK_def)
  have d: "decodeRuneInBytes (drop 0 malformed) = (RuneError, 3)"
    unfolding malformed_def using decodeRuneInBytes_malformed [OF a b] by simp
  have il: "0 < length malformed" by (simp add: malformed_def)
  have vn: "int 0 < n" using assms by simp
  have ne: "malformed ! 0 \<noteq> ESC" by (simp add: malformed_def ESC_def)
  have "truncLoop malformed n 0 0 [] = truncLoop malformed n (0 + 3) (0 + 1) ([] @ EncodeRune RuneError)"
    using truncLoop_char [OF il vn ne, of "[]"] d by simp
  also have "\<dots> = ([] @ EncodeRune RuneError, 0 + 1)"
    by (rule truncLoop_exit) (simp add: malformed_def)
  finally show ?thesis by (simp add: EncodeRune_RuneError)
qed

definition unterminated :: string where
  "unterminated = ESC # '']8;;'' @ eacute"

lemma truncLoop_unterminated:
  assumes "(1::int) \<le> n"
  shows "truncLoop unterminated n 0 0 []
           = (ESC # '']8;;'' @ [CHR 0xC3, CHR 0xEF, CHR 0xBF, CHR 0xBD], 1)"
proof -
  have vn: "int 0 < n" using assms by simp
  have il: "0 < length unterminated" by (simp add: unterminated_def)
  have e0: "unterminated ! 0 = ESC" by (simp add: unterminated_def)
  have i1: "0 + 1 < length unterminated" by (simp add: unterminated_def eacute_def)
  have b1: "unterminated ! (0 + 1) = CHR '']''" by (simp add: unterminated_def)
  have sk: "oscSkip unterminated (0 + 2) = 6" by code_simp
  have sl: "slice unterminated 0 6 = ESC # '']8;;'' @ [CHR 0xC3]" by code_simp
  have step1: "truncLoop unterminated n 0 0 []
      = truncLoop unterminated n 6 0 (ESC # '']8;;'' @ [CHR 0xC3])"
    using truncLoop_osc [OF il vn e0 i1 b1, of "[]"] by (simp only: sk sl append_Nil)
  have a: "\<not> isASCII (CHR 0xA9)" by (simp add: isASCII_def)
  have b: "snd (DecodeRune [CHR 0xA9]) = 1" by (simp add: Let_def)
  have dr: "drop 6 unterminated = [CHR 0xA9]" by (simp add: unterminated_def eacute_def)
  have d: "decodeRuneInBytes (drop 6 unterminated) = (RuneError, 3)"
    unfolding dr by (rule decodeRuneInBytes_malformed [OF a b])
  have il6: "6 < length unterminated" by (simp add: unterminated_def eacute_def)
  have ne: "unterminated ! 6 \<noteq> ESC" by (simp add: unterminated_def eacute_def ESC_def)
  have step2: "truncLoop unterminated n 6 0 (ESC # '']8;;'' @ [CHR 0xC3])
      = truncLoop unterminated n (6 + 3) (0 + 1)
          ((ESC # '']8;;'' @ [CHR 0xC3]) @ EncodeRune RuneError)"
    using truncLoop_char [OF il6 vn ne, of "ESC # '']8;;'' @ [CHR 0xC3]"] d by simp
  have step3: "truncLoop unterminated n (6 + 3) (0 + 1)
          ((ESC # '']8;;'' @ [CHR 0xC3]) @ EncodeRune RuneError)
      = ((ESC # '']8;;'' @ [CHR 0xC3]) @ EncodeRune RuneError, 0 + 1)"
    by (rule truncLoop_exit) (simp add: unterminated_def eacute_def)
  from step1 step2 step3 show ?thesis by (simp add: EncodeRune_RuneError)
qed

text \<open>
  C6 as stated fails in three ways. A line with exactly \<open>n\<close> visible characters is cut
  after the \<open>n\<close>-th: the control sequences behind it are dropped. A byte that is not
  well-formed UTF-8 comes back as the three bytes of U+FFFD, and the two bytes after it
  are skipped. And in a hyperlink marker that is not terminated the last byte of the line
  is read as a character of its own.
\<close>

theorem truncateVisibleChars_counterexample:
  "visibleChars (''a'' @ ESC # ''[0m'') = 1
   \<and> truncateVisibleChars (''a'' @ ESC # ''[0m'') 1 = ''a''
   \<and> visibleChars malformed = 1
   \<and> truncateVisibleChars malformed 5 = [CHR 0xEF, CHR 0xBF, CHR 0xBD]
   \<and> visibleChars unterminated = 1
   \<and> truncateVisibleChars unterminated 5
       = ESC # '']8;;'' @ [CHR 0xC3, CHR 0xEF, CHR 0xBF, CHR 0xBD]"
proof -
  have a1: "visibleChars (''a'' @ ESC # ''[0m'') = (1::nat)" by code_simp
  have a2: "truncateVisibleChars (''a'' @ ESC # ''[0m'') 1 = ''a''" by code_simp
  have lm: "int (length malformed) + 1 = 3" by (simp add: malformed_def)
  have lu: "int (length unterminated) + 1 = 8" by (simp add: unterminated_def eacute_def)
  have b1: "visibleChars malformed = 1"
    unfolding visibleChars_def lm by (simp add: truncLoop_malformed)
  have b2: "truncateVisibleChars malformed 5 = [CHR 0xEF, CHR 0xBF, CHR 0xBD]"
    unfolding truncateVisibleChars_def by (simp add: truncLoop_malformed)
  have c1: "visibleChars unterminated = 1"
    unfolding visibleChars_def lu by (simp add: truncLoop_unterminated)
  have c2: "truncateVisibleChars unterminated 5
       = ESC # '']8;;'' @ [CHR 0xC3, CHR 0xEF, CHR 0xBF, CHR 0xBD]"
    unfolding truncateVisibleChars_def by (simp add: truncLoop_unterminated)
  from a1 a2 b1 b2 c1 c2 show ?thesis by blast
qed

end
